theory Spec2Isabelle
  imports Main "HOL-Library.Word" "HOL-Library.Sublist"
begin

unbundle bit_operations_syntax

section \<open>Bytes, faults and the Go library functions the codec calls\<close>

type_synonym byte = "8 word"
type_synonym bytes = "byte list"
type_synonym u32 = "32 word"
type_synonym u64 = "64 word"

text \<open>
  A Go panic, or a store outside the allocation a raw pointer was derived from, ends the
  operation. Every such outcome of the source is a value of \<open>fault\<close>; an operation that can
  end that way returns \<open>fault + 'a\<close>.
\<close>

datatype fault =
    MalformedKey         \<comment> \<open>the decomposer was handed a key it is not defined on\<close>
  | SliceBounds          \<comment> \<open>\<open>s[a:b]\<close> outside \<open>0 \<le> a \<le> b \<le> cap\<close>\<close>
  | IndexOutOfRange      \<comment> \<open>\<open>s[i]\<close>, or a column read, at an index that does not exist\<close>
  | OutOfBoundsWrite     \<comment> \<open>a store through \<open>unsafe.Pointer\<close> past the end of the backing array\<close>
  | InvariantViolation   \<comment> \<open>an explicit \<open>panic\<close> under \<open>invariants.Enabled\<close>\<close>
  | NilDereference       \<comment> \<open>a field read through a nil pointer\<close>

text \<open>\<open>cmp.Compare\<close> of the Go standard library, on any linear order.\<close>

definition cmp_Compare :: "'a::linorder \<Rightarrow> 'a \<Rightarrow> int" where
  "cmp_Compare x y = (if x < y then -1 else if y < x then 1 else 0)"

text \<open>\<open>bytes.Compare\<close>: lexicographic order on unsigned bytes, a proper prefix first.\<close>

fun bytes_Compare :: "bytes \<Rightarrow> bytes \<Rightarrow> int" where
  "bytes_Compare [] [] = 0"
| "bytes_Compare [] (y # ys) = -1"
| "bytes_Compare (x # xs) [] = 1"
| "bytes_Compare (x # xs) (y # ys) =
     (if x < y then -1 else if y < x then 1 else bytes_Compare xs ys)"

text \<open>\<open>crbytes.CommonPrefix\<close>: the length of the longest common prefix.\<close>

fun CommonPrefix :: "bytes \<Rightarrow> bytes \<Rightarrow> nat" where
  "CommonPrefix (x # xs) (y # ys) = (if x = y then Suc (CommonPrefix xs ys) else 0)"
| "CommonPrefix _ _ = 0"

text \<open>
  \<open>binary.BigEndian.Uint64\<close> and \<open>Uint32\<close> read the first 8 (4) bytes of a slice,
  \<open>PutUint64\<close> and \<open>PutUint32\<close> produce them. The callers below only read from
  slices that are long enough.
\<close>

definition BigEndian_Uint64 :: "bytes \<Rightarrow> u64" where
  "BigEndian_Uint64 b =
     (ucast (b ! 7) OR push_bit 8 (ucast (b ! 6)) OR push_bit 16 (ucast (b ! 5))
      OR push_bit 24 (ucast (b ! 4)) OR push_bit 32 (ucast (b ! 3))
      OR push_bit 40 (ucast (b ! 2)) OR push_bit 48 (ucast (b ! 1))
      OR push_bit 56 (ucast (b ! 0)))"

definition BigEndian_Uint32 :: "bytes \<Rightarrow> u32" where
  "BigEndian_Uint32 b =
     (ucast (b ! 3) OR push_bit 8 (ucast (b ! 2)) OR push_bit 16 (ucast (b ! 1))
      OR push_bit 24 (ucast (b ! 0)))"

definition BigEndian_PutUint64 :: "u64 \<Rightarrow> bytes" where
  "BigEndian_PutUint64 v =
     [ucast (drop_bit 56 v), ucast (drop_bit 48 v), ucast (drop_bit 40 v),
      ucast (drop_bit 32 v), ucast (drop_bit 24 v), ucast (drop_bit 16 v),
      ucast (drop_bit 8 v), ucast v]"

definition BigEndian_PutUint32 :: "u32 \<Rightarrow> bytes" where
  "BigEndian_PutUint32 v =
     [ucast (drop_bit 24 v), ucast (drop_bit 16 v), ucast (drop_bit 8 v), ucast v]"

text \<open>The conversion \<open>int32(n)\<close> of a Go \<open>int\<close>: the low 32 bits, read as two's complement.\<close>

definition int32 :: "int \<Rightarrow> int" where
  "int32 n = (n + 2 ^ 31) mod 2 ^ 32 - 2 ^ 31"

text \<open>Go slicing \<open>s[:n]\<close>, \<open>s[n:]\<close> and indexing \<open>s[n]\<close> with an \<open>int\<close>; out of range panics.\<close>

definition slice_to :: "'a list \<Rightarrow> int \<Rightarrow> fault + 'a list" where
  "slice_to s n = (if 0 \<le> n \<and> n \<le> int (length s) then Inr (take (nat n) s) else Inl SliceBounds)"

definition slice_from :: "'a list \<Rightarrow> int \<Rightarrow> fault + 'a list" where
  "slice_from s n = (if 0 \<le> n \<and> n \<le> int (length s) then Inr (drop (nat n) s) else Inl SliceBounds)"

definition index_at :: "'a list \<Rightarrow> int \<Rightarrow> fault + 'a" where
  "index_at s n = (if 0 \<le> n \<and> n < int (length s) then Inr (s ! nat n) else Inl IndexOutOfRange)"

section \<open>The engine key and its comparator (package crdbtest)\<close>

text \<open>
  Modelled from the spec: \<open>crdbtest.Split\<close>; the source of package \<open>crdbtest\<close> is not
  among the files embedded here. An engine key is
  \<open><prefix> 0x00 [<suffix bytes> <suffix-length-byte>]\<close>, the prefix holds no \<open>0x00\<close>,
  and \<open>Split\<close> "returns the index of the 0x00 sentinel plus one". It is "defined for any
  well-formed engine key"; a key with no sentinel has no value here.
\<close>

definition Split :: "bytes \<Rightarrow> nat option" where
  "Split key = (if 0 \<in> set key then Some (Suc (length (takeWhile (\<lambda>b. b \<noteq> 0) key))) else None)"

text \<open>
  Modelled from the spec: \<open>crdbtest.DecodeEngineKey\<close>. It "walks to the sentinel, reads
  the trailing length byte, classifies the suffix as MVCC (lengths 9 or 13) or untyped
  (any other non-zero length), and returns the four fields"; the bare-prefix form gives
  an empty untyped suffix and zero timestamps. The trailing byte "gives the total length
  of the suffix region including itself", an untyped suffix is "s \<ge> 1 bytes of payload +
  length byte s+1", and a key whose trailing length is inconsistent is malformed. The
  untyped suffix returned is the suffix as the data model defines it, payload and length
  byte: the seeker compares the stored column against \<open>key[si:]\<close> and copies it out
  with nothing added.
\<close>

definition DecodeEngineKey :: "bytes \<Rightarrow> (bytes \<times> bytes \<times> u64 \<times> u32) option" where
  "DecodeEngineKey key =
     (case Split key of
        None \<Rightarrow> None
      | Some si \<Rightarrow>
          (let roachKey = take (si - 1) key; sfx = drop si key in
           if sfx = [] then Some (roachKey, [], 0, 0)
           else if length sfx = 1 then None
           else if unat (last sfx) = length sfx then
             (if length sfx = 9 then Some (roachKey, [], BigEndian_Uint64 sfx, 0)
              else if length sfx = 13 then
                Some (roachKey, [], BigEndian_Uint64 sfx, BigEndian_Uint32 (drop 8 sfx))
              else Some (roachKey, sfx, 0, 0))
           else None))"

text \<open>
  Modelled from the spec: \<open>crdbtest.CompareSuffixes\<close>, the order of two suffix regions of
  one prefix. An empty suffix is "the smallest possible key with its prefix"; MVCC
  suffixes are in "descending order on (wall time, logical counter)", untyped suffixes in
  "ascending lexicographic order". For an MVCC suffix against an untyped one the spec
  leaves the order open and recommends the lexicographic order of the encoded bytes,
  which is what is taken here.
\<close>

definition is_mvcc :: "bytes \<Rightarrow> bool" where
  "is_mvcc s \<longleftrightarrow> length s = 9 \<or> length s = 13"

definition suffix_wall :: "bytes \<Rightarrow> u64" where
  "suffix_wall s = BigEndian_Uint64 s"

definition suffix_logical :: "bytes \<Rightarrow> u32" where
  "suffix_logical s = (if length s = 13 then BigEndian_Uint32 (drop 8 s) else 0)"

definition CompareSuffixes :: "bytes \<Rightarrow> bytes \<Rightarrow> int" where
  "CompareSuffixes a b =
     (if a = [] \<or> b = [] then cmp_Compare (length a) (length b)
      else if is_mvcc a \<and> is_mvcc b then
        (if suffix_wall a \<noteq> suffix_wall b then cmp_Compare (suffix_wall b) (suffix_wall a)
         else cmp_Compare (suffix_logical b) (suffix_logical a))
      else bytes_Compare a b)"

text \<open>
  Modelled from the spec: \<open>crdbtest.Compare\<close>, the engine comparator: "first,
  lexicographic order on the prefix; second, for equal prefixes" the order of the
  suffixes. The seeker also hands it byte strings that are no engine keys (bare prefix
  columns, "compare prefix columns first"); on those it is the lexicographic order.
\<close>

definition Compare :: "bytes \<Rightarrow> bytes \<Rightarrow> int" where
  "Compare a b =
     (case (Split a, Split b) of
        (Some i, Some j) \<Rightarrow>
          (let c = bytes_Compare (take (i - 1) a) (take (j - 1) b) in
           if c \<noteq> 0 then c else CompareSuffixes (drop i a) (drop j b))
      | _ \<Rightarrow> bytes_Compare a b)"

text \<open>
  Modelled from the spec: \<open>crdbtest.AppendTimestamp\<close>, which appends "the MVCC suffix (8
  or 12 payload bytes + its length byte)" after the sentinel; with both fields zero "the
  suffix region is empty".
\<close>

definition AppendTimestamp :: "bytes \<Rightarrow> u64 \<Rightarrow> u32 \<Rightarrow> bytes" where
  "AppendTimestamp key walltime logical =
     (if walltime = 0 \<and> logical = 0 then key
      else if logical = 0 then key @ BigEndian_PutUint64 walltime @ [9]
      else key @ BigEndian_PutUint64 walltime @ BigEndian_PutUint32 logical @ [13])"

section \<open>The column builders (package colblk)\<close>

text \<open>
  Modelled from the spec: the column builders of the block framework, whose sources are
  not among the files embedded here. A \<open>PrefixBytesBuilder\<close> and a
  \<open>RawBytesBuilder\<close> "append a byte string" (the shared-prefix hint of the former only
  steers the compression); a \<open>UintBuilder\<close> "sets a value at a row". A builder is the
  list of the values it holds, row by row; a row of a \<open>UintBuilder\<close> that was never set
  reads as zero (the "implicit-zero default").
\<close>

definition PrefixBytesBuilder_Put :: "bytes list \<Rightarrow> bytes \<Rightarrow> int \<Rightarrow> bytes list" where
  "PrefixBytesBuilder_Put b key bytesSharedWithPrev = b @ [key]"

definition RawBytesBuilder_Put :: "bytes list \<Rightarrow> bytes \<Rightarrow> bytes list" where
  "RawBytesBuilder_Put b s = b @ [s]"

definition UnsafeGet :: "bytes list \<Rightarrow> nat \<Rightarrow> fault + bytes" where
  "UnsafeGet b i = (if i < length b then Inr (b ! i) else Inl IndexOutOfRange)"

definition UintBuilder_Set :: "u64 list \<Rightarrow> nat \<Rightarrow> u64 \<Rightarrow> u64 list" where
  "UintBuilder_Set b row v =
     (if row < length b then b[row := v] else b @ replicate (row - length b) 0 @ [v])"

definition UintBuilder_Get :: "u64 list \<Rightarrow> nat \<Rightarrow> u64" where
  "UintBuilder_Get b row = (if row < length b then b ! row else 0)"

section \<open>The key writer\<close>

record cockroachKeyWriter =
  kw_roachKeys :: "bytes list"
  kw_wallTimes :: "u64 list"
  kw_logicalTimes :: "u64 list"
  kw_untypedVersions :: "bytes list"
  prevSuffix :: bytes

record KeyComparison =
  PrefixLen :: int
  CommonPrefixLen :: int
  UserKeyComparison :: int

definition NewKeyWriter :: cockroachKeyWriter where
  "NewKeyWriter =
     \<lparr>kw_roachKeys = [], kw_wallTimes = [], kw_logicalTimes = [], kw_untypedVersions = [],
      prevSuffix = []\<rparr>"

text \<open>
  \<open>ComparePrev\<close>. The three fields of the result are \<open>int32\<close> in the source; they are
  integers here, every conversion and every \<open>int32\<close> subtraction written out.
\<close>

definition ComparePrev :: "cockroachKeyWriter \<Rightarrow> bytes \<Rightarrow> fault + KeyComparison" where
  "ComparePrev kw key =
     (case Split key of
        None \<Rightarrow> Inl MalformedKey
      | Some si \<Rightarrow>
          (let pl = int32 (int si) in
           if length (kw_roachKeys kw) = 0 then
             Inr \<lparr>PrefixLen = pl, CommonPrefixLen = 0, UserKeyComparison = 1\<rparr>
           else
             (case UnsafeGet (kw_roachKeys kw) (length (kw_roachKeys kw) - 1) of
                Inl e \<Rightarrow> Inl e
              | Inr lp \<Rightarrow>
                  (case slice_to key (int32 (pl - 1)) of
                     Inl e \<Rightarrow> Inl e
                   | Inr kp \<Rightarrow>
                       (let cpl = int32 (int (CommonPrefix lp kp)) in
                        if cpl = int32 (pl - 1) then
                          (case slice_from key pl of
                             Inl e \<Rightarrow> Inl e
                           | Inr ksuf \<Rightarrow>
                               Inr \<lparr>PrefixLen = pl, CommonPrefixLen = pl,
                                    UserKeyComparison =
                                      int32 (CompareSuffixes ksuf (prevSuffix kw))\<rparr>)
                        else if int (length lp) = cpl then
                          Inr \<lparr>PrefixLen = pl, CommonPrefixLen = cpl, UserKeyComparison = 1\<rparr>
                        else
                          (case index_at key cpl of
                             Inl e \<Rightarrow> Inl e
                           | Inr kb \<Rightarrow>
                               (case index_at lp cpl of
                                  Inl e \<Rightarrow> Inl e
                                | Inr lb \<Rightarrow>
                                    Inr \<lparr>PrefixLen = pl, CommonPrefixLen = cpl,
                                         UserKeyComparison =
                                           int32 (cmp_Compare kb lb)\<rparr>)))))))"

definition WriteKey ::
  "cockroachKeyWriter \<Rightarrow> nat \<Rightarrow> bytes \<Rightarrow> int \<Rightarrow> int \<Rightarrow> fault + cockroachKeyWriter" where
  "WriteKey kw row key keyPrefixLen keyPrefixLenSharedWithPrev =
     (case DecodeEngineKey key of
        None \<Rightarrow> Inl MalformedKey
      | Some (roachKey, untypedVersion, wallTime, logicalTime) \<Rightarrow>
          (case slice_from key keyPrefixLen of
             Inl e \<Rightarrow> Inl e
           | Inr sfx \<Rightarrow>
               Inr \<lparr>kw_roachKeys =
                      PrefixBytesBuilder_Put (kw_roachKeys kw) roachKey
                        (min keyPrefixLenSharedWithPrev (int (length roachKey))),
                    kw_wallTimes = UintBuilder_Set (kw_wallTimes kw) row wallTime,
                    kw_logicalTimes =
                      (if logicalTime > 0
                       then UintBuilder_Set (kw_logicalTimes kw) row (ucast logicalTime)
                       else kw_logicalTimes kw),
                    kw_untypedVersions =
                      RawBytesBuilder_Put (kw_untypedVersions kw) untypedVersion,
                    prevSuffix = sfx\<rparr>))"

definition MaterializeKey :: "cockroachKeyWriter \<Rightarrow> bytes \<Rightarrow> nat \<Rightarrow> fault + bytes" where
  "MaterializeKey kw dst i =
     (case UnsafeGet (kw_roachKeys kw) i of
        Inl e \<Rightarrow> Inl e
      | Inr roachKey \<Rightarrow>
          (case UnsafeGet (kw_untypedVersions kw) i of
             Inl e \<Rightarrow> Inl e
           | Inr untypedVersion \<Rightarrow>
               (if length untypedVersion > 0 then
                  Inr (dst @ roachKey @ [0] @ untypedVersion @ [of_nat (length untypedVersion)])
                else
                  Inr (AppendTimestamp (dst @ roachKey @ [0])
                         (UintBuilder_Get (kw_wallTimes kw) i)
                         (ucast (UintBuilder_Get (kw_logicalTimes kw) i))))))"

section \<open>The block writer and the finished block\<close>

text \<open>
  Modelled from the spec: the block writer around the key writer and the reader of the
  finished block, whose sources are not among the files embedded here. The block writer
  is driven as \<open>generateDataBlock\<close> drives it: \<open>ComparePrev\<close> on the key, then the
  key is added at the next row with the prefix lengths just computed. The finished block
  holds "four parallel columns of equal row count" and the prefix-changed bit set: "bit i
  is set iff row i's prefix differs from row i-1 (bit 0 is conventionally set)".
  \<open>SeekSetBitGE i\<close> returns "the smallest j \<ge> i whose bit is set, or N if none".
\<close>

record DataBlockWriter =
  KeyWriter :: cockroachKeyWriter
  w_rows :: nat

record DataBlockReader =
  r_roachKeys :: "bytes list"
  r_mvccWallTimes :: "u64 list"
  r_mvccLogical :: "u64 list"
  r_untypedVersions :: "bytes list"
  prefixChanged :: "bool list"

definition DataBlockWriter_Init :: DataBlockWriter where
  "DataBlockWriter_Init = \<lparr>KeyWriter = NewKeyWriter, w_rows = 0\<rparr>"

definition DataBlockWriter_Add :: "DataBlockWriter \<Rightarrow> bytes \<Rightarrow> fault + DataBlockWriter" where
  "DataBlockWriter_Add w key =
     (case ComparePrev (KeyWriter w) key of
        Inl e \<Rightarrow> Inl e
      | Inr kcmp \<Rightarrow>
          (case WriteKey (KeyWriter w) (w_rows w) key (PrefixLen kcmp) (CommonPrefixLen kcmp) of
             Inl e \<Rightarrow> Inl e
           | Inr kw \<Rightarrow> Inr \<lparr>KeyWriter = kw, w_rows = w_rows w + 1\<rparr>))"

fun DataBlockWriter_AddAll :: "DataBlockWriter \<Rightarrow> bytes list \<Rightarrow> fault + DataBlockWriter" where
  "DataBlockWriter_AddAll w [] = Inr w"
| "DataBlockWriter_AddAll w (key # keys) =
     (case DataBlockWriter_Add w key of
        Inl e \<Rightarrow> Inl e
      | Inr w' \<Rightarrow> DataBlockWriter_AddAll w' keys)"

definition prefixChanged_bits :: "bytes list \<Rightarrow> bool list" where
  "prefixChanged_bits col =
     map (\<lambda>i. if i = 0 then True else col ! i \<noteq> col ! (i - 1)) [0..<length col]"

definition DataBlockWriter_Finish :: "DataBlockWriter \<Rightarrow> DataBlockReader" where
  "DataBlockWriter_Finish w =
     \<lparr>r_roachKeys = take (w_rows w) (kw_roachKeys (KeyWriter w)),
      r_mvccWallTimes = map (UintBuilder_Get (kw_wallTimes (KeyWriter w))) [0..<w_rows w],
      r_mvccLogical = map (UintBuilder_Get (kw_logicalTimes (KeyWriter w))) [0..<w_rows w],
      r_untypedVersions = take (w_rows w) (kw_untypedVersions (KeyWriter w)),
      prefixChanged = prefixChanged_bits (take (w_rows w) (kw_roachKeys (KeyWriter w)))\<rparr>"

definition writeBlock :: "bytes list \<Rightarrow> fault + DataBlockReader" where
  "writeBlock keys =
     (case DataBlockWriter_AddAll DataBlockWriter_Init keys of
        Inl e \<Rightarrow> Inl e
      | Inr w \<Rightarrow> Inr (DataBlockWriter_Finish w))"

definition SeekSetBitGE :: "bool list \<Rightarrow> nat \<Rightarrow> nat" where
  "SeekSetBitGE bm i =
     (if length bm \<le> i then length bm else i + length (takeWhile Not (drop i bm)))"

section \<open>The column views of the reader\<close>

text \<open>
  Modelled from the spec: the reader-side column views, \<open>At(row)\<close>,
  \<open>UnsafeFirstSlice()\<close>, \<open>SharedPrefix()\<close> and \<open>Search(query) \<rightarrow> (row, equal)\<close>,
  the "lexicographic binary search" over the prefix column for "the first row whose
  prefix is \<ge> the query prefix". A view is the list of the column's values; a read at a
  row the column does not have is a fault.
\<close>

definition UnsafeUints_At :: "u64 list \<Rightarrow> nat \<Rightarrow> fault + u64" where
  "UnsafeUints_At col i = (if i < length col then Inr (col ! i) else Inl IndexOutOfRange)"

definition RawBytes_At :: "bytes list \<Rightarrow> nat \<Rightarrow> fault + bytes" where
  "RawBytes_At col i = (if i < length col then Inr (col ! i) else Inl IndexOutOfRange)"

definition UnsafeFirstSlice :: "bytes list \<Rightarrow> fault + bytes" where
  "UnsafeFirstSlice col = (if 0 < length col then Inr (col ! 0) else Inl IndexOutOfRange)"

fun SharedPrefix :: "bytes list \<Rightarrow> bytes" where
  "SharedPrefix [] = []"
| "SharedPrefix (k # ks) = foldl (\<lambda>p k'. take (CommonPrefix p k') p) k ks"

function PrefixBytes_Search_loop :: "bytes list \<Rightarrow> bytes \<Rightarrow> nat \<Rightarrow> nat \<Rightarrow> nat" where
  "PrefixBytes_Search_loop col k l u =
     (if l < u then
        (let h = (l + u) div 2 in
         if h < length col \<and> bytes_Compare (col ! h) k \<ge> 0
         then PrefixBytes_Search_loop col k l h
         else PrefixBytes_Search_loop col k (h + 1) u)
      else l)"
  by pat_completeness auto
termination
  by (relation "measure (\<lambda>(col, k, l, u). u - l)") auto

declare PrefixBytes_Search_loop.simps [simp del]

definition PrefixBytes_Search :: "bytes list \<Rightarrow> bytes \<Rightarrow> nat \<times> bool" where
  "PrefixBytes_Search col k =
     (let i = PrefixBytes_Search_loop col k 0 (length col) in
      (i, if i < length col then col ! i = k else False))"

section \<open>The key seeker\<close>

record cockroachKeySeeker =
  reader :: "DataBlockReader option"
  ks_roachKeys :: "bytes list"
  mvccWallTimes :: "u64 list"
  mvccLogical :: "u64 list"
  ks_untypedVersions :: "bytes list"
  sharedPrefix :: bytes

definition NewKeySeeker :: cockroachKeySeeker where
  "NewKeySeeker =
     \<lparr>reader = None, ks_roachKeys = [], mvccWallTimes = [], mvccLogical = [],
      ks_untypedVersions = [], sharedPrefix = []\<rparr>"

definition Init :: "cockroachKeySeeker \<Rightarrow> DataBlockReader \<Rightarrow> cockroachKeySeeker" where
  "Init ks r =
     \<lparr>reader = Some r, ks_roachKeys = r_roachKeys r, mvccWallTimes = r_mvccWallTimes r,
      mvccLogical = r_mvccLogical r, ks_untypedVersions = r_untypedVersions r,
      sharedPrefix = SharedPrefix (r_roachKeys r)\<rparr>"

text \<open>
  \<open>IsLowerBound\<close>. The build flag \<open>invariants.Enabled\<close> is a parameter; the row read of
  the debug check happens only under the flag, as \<open>&&\<close> short-circuits.
\<close>

definition IsLowerBound :: "bool \<Rightarrow> cockroachKeySeeker \<Rightarrow> bytes \<Rightarrow> bytes \<Rightarrow> fault + bool" where
  "IsLowerBound invariants_Enabled ks k syntheticSuffix =
     (case DecodeEngineKey k of
        None \<Rightarrow> Inl MalformedKey
      | Some (roachKey, untypedVersion, wallTime, logicalTime) \<Rightarrow>
          (case UnsafeFirstSlice (ks_roachKeys ks) of
             Inl e \<Rightarrow> Inl e
           | Inr first \<Rightarrow>
               (if Compare first roachKey \<noteq> 0 then Inr (Compare first roachKey > 0)
                else if length syntheticSuffix > 0 then
                  (case slice_from k (int (length roachKey) + 1) of
                     Inl e \<Rightarrow> Inl e
                   | Inr ksfx \<Rightarrow> Inr (Compare syntheticSuffix ksfx \<ge> 0))
                else if length untypedVersion > 0 then
                  (case (if invariants_Enabled then UnsafeUints_At (mvccWallTimes ks) 0
                         else Inr 0) of
                     Inl e \<Rightarrow> Inl e
                   | Inr w0 \<Rightarrow>
                       (if w0 \<noteq> 0 then Inl InvariantViolation
                        else
                          (case RawBytes_At (ks_untypedVersions ks) 0 of
                             Inl e \<Rightarrow> Inl e
                           | Inr u0 \<Rightarrow> Inr (Compare u0 untypedVersion \<ge> 0))))
                else
                  (case UnsafeUints_At (mvccWallTimes ks) 0 of
                     Inl e \<Rightarrow> Inl e
                   | Inr w0 \<Rightarrow>
                       (if cmp_Compare w0 wallTime \<noteq> 0 then Inr (cmp_Compare w0 wallTime > 0)
                        else
                          (case UnsafeUints_At (mvccLogical ks) 0 of
                             Inl e \<Rightarrow> Inl e
                           | Inr l0 \<Rightarrow>
                               Inr (cmp_Compare (ucast l0 :: u32) logicalTime \<ge> 0)))))))"

text \<open>
  The two binary searches of \<open>seekGEOnSuffix\<close>, between \<open>l\<close> and \<open>u\<close>. Rows are counted
  in natural numbers, so the midpoint \<open>int(uint(l+u) >> 1)\<close> is \<open>(l + u) div 2\<close>.
\<close>

function seekGEOnSuffix_untyped :: "cockroachKeySeeker \<Rightarrow> bytes \<Rightarrow> nat \<Rightarrow> nat \<Rightarrow> fault + nat" where
  "seekGEOnSuffix_untyped ks seekSuffix l u =
     (if l < u then
        (case RawBytes_At (ks_untypedVersions ks) ((l + u) div 2) of
           Inl e \<Rightarrow> Inl e
         | Inr v \<Rightarrow>
             (if bytes_Compare v seekSuffix \<ge> 0
              then seekGEOnSuffix_untyped ks seekSuffix l ((l + u) div 2)
              else seekGEOnSuffix_untyped ks seekSuffix ((l + u) div 2 + 1) u))
      else Inr l)"
  by pat_completeness auto
termination
  by (relation "measure (\<lambda>(ks, s, l, u). u - l)") auto

declare seekGEOnSuffix_untyped.simps [simp del]

function seekGEOnSuffix_mvcc :: "cockroachKeySeeker \<Rightarrow> u64 \<Rightarrow> u32 \<Rightarrow> nat \<Rightarrow> nat \<Rightarrow> fault + nat" where
  "seekGEOnSuffix_mvcc ks seekWallTime seekLogicalTime l u =
     (if l < u then
        (case UnsafeUints_At (mvccWallTimes ks) ((l + u) div 2) of
           Inl e \<Rightarrow> Inl e
         | Inr hWallTime \<Rightarrow>
             (if hWallTime < seekWallTime then
                seekGEOnSuffix_mvcc ks seekWallTime seekLogicalTime l ((l + u) div 2)
              else
                (case (if hWallTime = seekWallTime
                       then UnsafeUints_At (mvccLogical ks) ((l + u) div 2) else Inr 0) of
                   Inl e \<Rightarrow> Inl e
                 | Inr hLogical \<Rightarrow>
                     (if hWallTime = seekWallTime \<and> (ucast hLogical :: u32) \<le> seekLogicalTime
                      then seekGEOnSuffix_mvcc ks seekWallTime seekLogicalTime l ((l + u) div 2)
                      else
                        seekGEOnSuffix_mvcc ks seekWallTime seekLogicalTime
                          ((l + u) div 2 + 1) u))))
      else Inr l)"
  by pat_completeness auto
termination
  by (relation "measure (\<lambda>(ks, w, lg, l, u). u - l)") auto

declare seekGEOnSuffix_mvcc.simps [simp del]

definition seekGEOnSuffix :: "cockroachKeySeeker \<Rightarrow> nat \<Rightarrow> bytes \<Rightarrow> fault + nat" where
  "seekGEOnSuffix ks index seekSuffix =
     (if length seekSuffix = 0 then Inr index
      else
        (case reader ks of
           None \<Rightarrow> Inl NilDereference
         | Some r \<Rightarrow>
             (if length seekSuffix = 13 \<or> length seekSuffix = 14 then
                seekGEOnSuffix_mvcc ks (BigEndian_Uint64 seekSuffix)
                  (BigEndian_Uint32 (drop 8 seekSuffix))
                  index (SeekSetBitGE (prefixChanged r) (index + 1))
              else if length seekSuffix = 9 then
                seekGEOnSuffix_mvcc ks (BigEndian_Uint64 seekSuffix) 0
                  index (SeekSetBitGE (prefixChanged r) (index + 1))
              else
                seekGEOnSuffix_untyped ks seekSuffix
                  index (SeekSetBitGE (prefixChanged r) (index + 1)))))"

definition SeekGE :: "cockroachKeySeeker \<Rightarrow> bytes \<Rightarrow> int \<Rightarrow> 8 word \<Rightarrow> fault + (nat \<times> bool)" where
  "SeekGE ks key boundRow searchDir =
     (case Split key of
        None \<Rightarrow> Inl MalformedKey
      | Some si \<Rightarrow>
          (case slice_to key (int si - 1) of
             Inl e \<Rightarrow> Inl e
           | Inr kp \<Rightarrow>
               (if snd (PrefixBytes_Search (ks_roachKeys ks) kp) then
                  (case slice_from key (int si) of
                     Inl e \<Rightarrow> Inl e
                   | Inr sfx \<Rightarrow>
                       (case seekGEOnSuffix ks (fst (PrefixBytes_Search (ks_roachKeys ks) kp)) sfx of
                          Inl e \<Rightarrow> Inl e
                        | Inr row \<Rightarrow> Inr (row, True)))
                else Inr (fst (PrefixBytes_Search (ks_roachKeys ks) kp), False))))"

section \<open>Materialising a row's user key\<close>

text \<open>
  Modelled from the spec: the prefix iterator \<open>PrefixBytesIter\<close> of the block framework.
  Its buffer \<open>ki.buf\<close> is a slice: a backing array of \<open>cap(ki.buf)\<close> bytes, of which
  the first \<open>len(ki.buf)\<close> are the slice. \<open>SetAt\<close> "seeks to row absolutely" and
  leaves the row's prefix in the buffer; \<open>SetNext\<close> "advances the prefix iterator one
  step" from the row it stands at.
\<close>

record PrefixBytesIter =
  backing :: bytes
  buf_len :: nat
  at_row :: nat

definition SetAt :: "bytes list \<Rightarrow> PrefixBytesIter \<Rightarrow> nat \<Rightarrow> fault + PrefixBytesIter" where
  "SetAt col ki i =
     (if i < length col then
        (if length (col ! i) \<le> length (backing ki) then
           Inr \<lparr>backing = col ! i @ drop (length (col ! i)) (backing ki),
                buf_len = length (col ! i), at_row = i\<rparr>
         else Inl SliceBounds)
      else Inl IndexOutOfRange)"

definition SetNext :: "bytes list \<Rightarrow> PrefixBytesIter \<Rightarrow> fault + PrefixBytesIter" where
  "SetNext col ki = SetAt col ki (at_row ki + 1)"

text \<open>
  The source writes the suffix through raw pointers into the backing array, one byte after
  the other (\<open>memmove\<close> likewise). A store inside the array updates it; a store past its
  end is outside the allocation and is the fault \<open>OutOfBoundsWrite\<close>. Reslicing
  \<open>ki.buf[:n]\<close> is checked against the capacity and panics beyond it.
\<close>

fun stores :: "bytes \<Rightarrow> nat \<Rightarrow> bytes \<Rightarrow> fault + bytes" where
  "stores m off [] = Inr m"
| "stores m off (v # vs) =
     (if off < length m then stores (m[off := v]) (off + 1) vs else Inl OutOfBoundsWrite)"

definition reslice :: "bytes \<Rightarrow> nat \<Rightarrow> fault + bytes" where
  "reslice m n = (if n \<le> length m then Inr (take n m) else Inl SliceBounds)"

definition MaterializeUserKey ::
  "cockroachKeySeeker \<Rightarrow> PrefixBytesIter \<Rightarrow> int \<Rightarrow> nat \<Rightarrow> fault + bytes \<times> PrefixBytesIter" where
  "MaterializeUserKey ks ki0 prevRow row =
     (case (if prevRow + 1 = int row \<and> prevRow \<ge> 0 then SetNext (ks_roachKeys ks) ki0
            else SetAt (ks_roachKeys ks) ki0 row) of
        Inl e \<Rightarrow> Inl e
      | Inr ki \<Rightarrow>
     (case UnsafeUints_At (mvccWallTimes ks) row of
        Inl e \<Rightarrow> Inl e
      | Inr mvccWall \<Rightarrow>
     (case UnsafeUints_At (mvccLogical ks) row of
        Inl e \<Rightarrow> Inl e
      | Inr logical64 \<Rightarrow>
     (if mvccWall = 0 \<and> (ucast logical64 :: u32) = 0 then
        (case RawBytes_At (ks_untypedVersions ks) row of
           Inl e \<Rightarrow> Inl e
         | Inr untypedVersion \<Rightarrow>
             (if length untypedVersion = 0 then
                (case reslice (backing ki) (buf_len ki + 1) of
                   Inl e \<Rightarrow> Inl e
                 | Inr res \<Rightarrow>
                     Inr (res[buf_len ki := 0], ki\<lparr>backing := (backing ki)[buf_len ki := 0]\<rparr>))
              else
                (case reslice (backing ki) (buf_len ki + 1 + length untypedVersion) of
                   Inl e \<Rightarrow> Inl e
                 | Inr res \<Rightarrow>
                     (case stores (backing ki) (buf_len ki) (0 # untypedVersion) of
                        Inl e \<Rightarrow> Inl e
                      | Inr m \<Rightarrow>
                          Inr (take (buf_len ki + 1 + length untypedVersion) m,
                               ki\<lparr>backing := m\<rparr>)))))
      else
        (case stores (backing ki) (buf_len ki)
                [0, ucast (drop_bit 56 mvccWall), ucast (drop_bit 48 mvccWall),
                 ucast (drop_bit 40 mvccWall), ucast (drop_bit 32 mvccWall),
                 ucast (drop_bit 24 mvccWall), ucast (drop_bit 16 mvccWall),
                 ucast (drop_bit 8 mvccWall), ucast mvccWall] of
           Inl e \<Rightarrow> Inl e
         | Inr m \<Rightarrow>
             (if (ucast logical64 :: u32) = 0 then
                (case stores m (buf_len ki + 9) [9] of
                   Inl e \<Rightarrow> Inl e
                 | Inr m' \<Rightarrow>
                     (case reslice m' (buf_len ki + 10) of
                        Inl e \<Rightarrow> Inl e
                      | Inr res \<Rightarrow> Inr (res, ki\<lparr>backing := m'\<rparr>)))
              else
                (case stores m (buf_len ki + 9)
                        [ucast (drop_bit 24 mvccWall), ucast (drop_bit 16 mvccWall),
                         ucast (drop_bit 8 mvccWall), ucast mvccWall, 13] of
                   Inl e \<Rightarrow> Inl e
                 | Inr m' \<Rightarrow>
                     (case reslice m' (buf_len ki + 14) of
                        Inl e \<Rightarrow> Inl e
                      | Inr res \<Rightarrow> Inr (res, ki\<lparr>backing := m'\<rparr>)))))))))"

definition MaterializeUserKeyWithSyntheticSuffix ::
  "cockroachKeySeeker \<Rightarrow> PrefixBytesIter \<Rightarrow> bytes \<Rightarrow> int \<Rightarrow> nat
     \<Rightarrow> fault + bytes \<times> PrefixBytesIter" where
  "MaterializeUserKeyWithSyntheticSuffix ks ki0 sfx prevRow row =
     (case (if prevRow + 1 = int row \<and> prevRow \<ge> 0 then SetNext (ks_roachKeys ks) ki0
            else SetAt (ks_roachKeys ks) ki0 row) of
        Inl e \<Rightarrow> Inl e
      | Inr ki \<Rightarrow>
          (case reslice (backing ki) (buf_len ki + 1 + length sfx) of
             Inl e \<Rightarrow> Inl e
           | Inr res \<Rightarrow>
               (case stores (backing ki) (buf_len ki) (0 # sfx) of
                  Inl e \<Rightarrow> Inl e
                | Inr m \<Rightarrow> Inr (take (buf_len ki + 1 + length sfx) m, ki\<lparr>backing := m\<rparr>))))"

text \<open>
  \<open>Release\<close> overwrites the seeker with the zero value of its type and puts it into the
  pool; the pool is the list of the seekers it holds.
\<close>

definition Release ::
  "cockroachKeySeeker \<Rightarrow> cockroachKeySeeker list
     \<Rightarrow> cockroachKeySeeker \<times> cockroachKeySeeker list" where
  "Release ks cockroachKeySeekerPool =
     (\<lparr>reader = None, ks_roachKeys = [], mvccWallTimes = [], mvccLogical = [],
       ks_untypedVersions = [], sharedPrefix = []\<rparr>,
      \<lparr>reader = None, ks_roachKeys = [], mvccWallTimes = [], mvccLogical = [],
       ks_untypedVersions = [], sharedPrefix = []\<rparr> # cockroachKeySeekerPool)"

section \<open>A block and the seeker bound to it\<close>

text \<open>
  What \<open>TestCockroachDataBlock\<close> sets up: the keys are written to a block, the block is
  finished, and a fresh seeker is bound to it. Each operation below runs on that seeker
  (or on the writer that has just taken the keys).
\<close>

definition blockSeeker :: "bytes list \<Rightarrow> fault + cockroachKeySeeker" where
  "blockSeeker keys =
     (case writeBlock keys of Inl e \<Rightarrow> Inl e | Inr r \<Rightarrow> Inr (Init NewKeySeeker r))"

definition emptyIter :: "nat \<Rightarrow> PrefixBytesIter" where
  "emptyIter n = \<lparr>backing = replicate n 0, buf_len = 0, at_row = 0\<rparr>"

definition block_MaterializeKey :: "bytes list \<Rightarrow> nat \<Rightarrow> fault + bytes" where
  "block_MaterializeKey keys row =
     (case DataBlockWriter_AddAll DataBlockWriter_Init keys of
        Inl e \<Rightarrow> Inl e
      | Inr w \<Rightarrow> MaterializeKey (KeyWriter w) [] row)"

definition block_MaterializeUserKey :: "bytes list \<Rightarrow> nat \<Rightarrow> int \<Rightarrow> nat \<Rightarrow> fault + bytes" where
  "block_MaterializeUserKey keys n prevRow row =
     (case blockSeeker keys of
        Inl e \<Rightarrow> Inl e
      | Inr ks \<Rightarrow>
          (case MaterializeUserKey ks (emptyIter n) prevRow row of
             Inl e \<Rightarrow> Inl e
           | Inr res \<Rightarrow> Inr (fst res)))"

definition block_SeekGE :: "bytes list \<Rightarrow> bytes \<Rightarrow> int \<Rightarrow> 8 word \<Rightarrow> fault + (nat \<times> bool)" where
  "block_SeekGE keys q boundRow searchDir =
     (case blockSeeker keys of
        Inl e \<Rightarrow> Inl e
      | Inr ks \<Rightarrow> SeekGE ks q boundRow searchDir)"

definition block_IsLowerBound :: "bool \<Rightarrow> bytes list \<Rightarrow> bytes \<Rightarrow> bytes \<Rightarrow> fault + bool" where
  "block_IsLowerBound invariants_Enabled keys q syntheticSuffix =
     (case blockSeeker keys of
        Inl e \<Rightarrow> Inl e
      | Inr ks \<Rightarrow> IsLowerBound invariants_Enabled ks q syntheticSuffix)"

definition block_ComparePrev :: "bytes list \<Rightarrow> bytes \<Rightarrow> fault + KeyComparison" where
  "block_ComparePrev keys key =
     (case DataBlockWriter_AddAll DataBlockWriter_Init keys of
        Inl e \<Rightarrow> Inl e
      | Inr w \<Rightarrow> ComparePrev (KeyWriter w) key)"

text \<open>The parts of a key, for stating properties: its prefix and its suffix region.\<close>

definition key_prefix :: "bytes \<Rightarrow> bytes" where
  "key_prefix k = (case Split k of None \<Rightarrow> k | Some si \<Rightarrow> take (si - 1) k)"

definition key_suffix :: "bytes \<Rightarrow> bytes" where
  "key_suffix k = (case Split k of None \<Rightarrow> [] | Some si \<Rightarrow> drop si k)"

definition wf_key :: "bytes \<Rightarrow> bool" where
  "wf_key k \<longleftrightarrow> (case DecodeEngineKey k of None \<Rightarrow> False | Some d \<Rightarrow> True)"

section \<open>Notions used to state and prove the properties\<close>

text \<open>
  The three binary searches (over the prefix column, the MVCC columns and the untyped
  column) have one shape; \<open>bsearch P l u\<close> is that shape over a predicate on rows. Each
  loop is shown equal to it and its result is characterised once.
\<close>

function bsearch :: "(nat \<Rightarrow> bool) \<Rightarrow> nat \<Rightarrow> nat \<Rightarrow> nat" where
  "bsearch P l u =
     (if l < u then
        (if P ((l + u) div 2) then bsearch P l ((l + u) div 2)
         else bsearch P ((l + u) div 2 + 1) u)
      else l)"
  by pat_completeness auto
termination
  by (relation "measure (\<lambda>(P, l, u). u - l)") auto

declare bsearch.simps [simp del]

text \<open>
  \<open>seekGEOnSuffix\<close> as the spec words it, to be compared with the source's function. The
  spec branches on the length of the seek suffix: "len == 0" returns the index; "len == 9
  or len == 13" parses \<open>seek_wall\<close> (big-endian 64-bit) and \<open>seek_logical\<close> (big-endian
  32-bit, or 0) and binary-searches \<open>[index, u)\<close> with the predicate
  "row_wall < seek_wall OR (row_wall == seek_wall AND row_logical \<le> seek_logical)";
  "any other length" is "an ordinary ascending lexicographic binary search over the
  untyped-version column in \<open>[index, u)\<close>", its predicate being that the row's untyped
  version is at or after the seek suffix. \<open>u\<close> is the next set bit of the prefix-changed
  bit set after \<open>index\<close>, and each search halves at the midpoint \<open>(l+u) >> 1\<close>.
\<close>

definition seekGEOnSuffix_spec :: "cockroachKeySeeker \<Rightarrow> nat \<Rightarrow> bytes \<Rightarrow> fault + nat" where
  "seekGEOnSuffix_spec ks index seekSuffix =
     (if length seekSuffix = 0 then Inr index
      else
        (case reader ks of
           None \<Rightarrow> Inl NilDereference
         | Some r \<Rightarrow>
             (if length seekSuffix = 9 \<or> length seekSuffix = 13 then
                Inr (bsearch
                       (\<lambda>h. mvccWallTimes ks ! h < BigEndian_Uint64 seekSuffix
                            \<or> (mvccWallTimes ks ! h = BigEndian_Uint64 seekSuffix
                                \<and> (ucast (mvccLogical ks ! h) :: u32)
                                    \<le> (if length seekSuffix = 13
                                        then BigEndian_Uint32 (drop 8 seekSuffix) else 0)))
                       index (SeekSetBitGE (prefixChanged r) (index + 1)))
              else
                Inr (bsearch (\<lambda>h. bytes_Compare (ks_untypedVersions ks ! h) seekSuffix \<ge> 0)
                       index (SeekSetBitGE (prefixChanged r) (index + 1))))))"


text \<open>
  What the writer stores for a key, read off the key's suffix region: an MVCC suffix
  goes to the two timestamp columns and leaves the untyped column empty, any other
  suffix goes to the untyped column and leaves the timestamps zero.
\<close>

definition stored_untyped :: "bytes \<Rightarrow> bytes" where
  "stored_untyped s = (if is_mvcc s then [] else s)"

definition stored_wall :: "bytes \<Rightarrow> u64" where
  "stored_wall s = (if is_mvcc s then suffix_wall s else 0)"

definition stored_logical :: "bytes \<Rightarrow> u32" where
  "stored_logical s = (if is_mvcc s then suffix_logical s else 0)"

definition writer_holds :: "DataBlockWriter \<Rightarrow> bytes list \<Rightarrow> bool" where
  "writer_holds w keys \<longleftrightarrow>
     w_rows w = length keys
     \<and> kw_roachKeys (KeyWriter w) = map key_prefix keys
     \<and> kw_untypedVersions (KeyWriter w) = map (\<lambda>k. stored_untyped (key_suffix k)) keys
     \<and> (\<forall>i. UintBuilder_Get (kw_wallTimes (KeyWriter w)) i
            = (if i < length keys then stored_wall (key_suffix (keys ! i)) else 0))
     \<and> (\<forall>i. UintBuilder_Get (kw_logicalTimes (KeyWriter w)) i
            = (if i < length keys then ucast (stored_logical (key_suffix (keys ! i))) else 0))"


text \<open>
  A block key is of the query's kind when, having the query's prefix, its suffix is an
  MVCC suffix exactly if the query's is; a query with an empty suffix asks for nothing.
\<close>

definition same_kind :: "bytes \<Rightarrow> bytes \<Rightarrow> bool" where
  "same_kind q k =
     (if key_prefix k = key_prefix q \<and> key_suffix q \<noteq> []
      then is_mvcc (key_suffix k) = is_mvcc (key_suffix q) else True)"


text \<open>A row of the seeker is an MVCC row when one of its two stored timestamp fields is non-zero.\<close>

definition mvcc_row :: "cockroachKeySeeker \<Rightarrow> nat \<Rightarrow> bool" where
  "mvcc_row ks row =
     (case UnsafeUints_At (mvccWallTimes ks) row of
        Inl e \<Rightarrow> False
      | Inr w \<Rightarrow>
          (case UnsafeUints_At (mvccLogical ks) row of
             Inl e \<Rightarrow> False
           | Inr l \<Rightarrow> (if w = 0 \<and> (ucast l :: u32) = 0 then False else True)))"


text \<open>The iterator after the first step of a materialisation: advanced by one row, or set to the row.\<close>

definition position ::
  "cockroachKeySeeker \<Rightarrow> PrefixBytesIter \<Rightarrow> int \<Rightarrow> nat \<Rightarrow> fault + PrefixBytesIter" where
  "position ks ki prevRow row =
     (if prevRow + 1 = int row \<and> prevRow \<ge> 0 then SetNext (ks_roachKeys ks) ki
      else SetAt (ks_roachKeys ks) ki row)"

section \<open>Basic facts\<close>

lemma int32_id: "- (2 ^ 31) \<le> n \<Longrightarrow> n < 2 ^ 31 \<Longrightarrow> int32 n = n"
  unfolding int32_def by (simp add: zmod_trivial_iff)

lemma int32_small: "c \<in> {-1, 0, 1} \<Longrightarrow> int32 c = c"
  by (auto simp: int32_def)

lemma cmp_Compare_range: "cmp_Compare x y \<in> {-1, 0, 1}"
  by (simp add: cmp_Compare_def)

lemma bytes_Compare_range: "bytes_Compare a b \<in> {-1, 0, 1}"
  by (induction a b rule: bytes_Compare.induct) auto

lemma CompareSuffixes_range: "CompareSuffixes a b \<in> {-1, 0, 1}"
  using cmp_Compare_range[of "length a" "length b"] bytes_Compare_range[of a b]
    cmp_Compare_range[of "suffix_wall b" "suffix_wall a"]
    cmp_Compare_range[of "suffix_logical b" "suffix_logical a"]
  unfolding CompareSuffixes_def by (auto split: if_splits)

lemma Split_bounds:
  assumes "Split key = Some si"
  shows "1 \<le> si" and "si \<le> length key" and "key ! (si - 1) = 0"
    and "0 \<notin> set (take (si - 1) key)"
    and "si - 1 = length (takeWhile (\<lambda>b. b \<noteq> 0) key)"
proof -
  let ?n = "length (takeWhile (\<lambda>b. b \<noteq> 0) key)"
  from assms have mem: "0 \<in> set key" and si: "si = Suc ?n"
    by (auto simp: Split_def split: if_splits)
  have "takeWhile (\<lambda>b. b \<noteq> 0) key \<noteq> key"
    using mem by (auto simp: takeWhile_eq_all_conv)
  then have lt: "?n < length key"
    using length_takeWhile_le[of "\<lambda>b. b \<noteq> 0" key]
    by (metis le_neq_implies_less takeWhile_eq_take take_all_iff order_refl)
  show "1 \<le> si" using si by simp
  show "si \<le> length key" using si lt by simp
  show "key ! (si - 1) = 0" using nth_length_takeWhile[OF lt] si by simp
  show "0 \<notin> set (take (si - 1) key)"
    using set_takeWhileD[of 0 "\<lambda>b. b \<noteq> 0" key] si
    by (metis diff_Suc_1 takeWhile_eq_take)
  show "si - 1 = ?n" using si by simp
qed

lemma CommonPrefix_of_prefix: "prefix a b \<Longrightarrow> CommonPrefix b a = length a"
  by (induction b a rule: CommonPrefix.induct) auto

lemma CommonPrefix_le: "CommonPrefix a b \<le> length a \<and> CommonPrefix a b \<le> length b"
  by (induction a b rule: CommonPrefix.induct) auto

section \<open>The writer's comparison with the previous row\<close>

text \<open>
  Claim C10. Whenever the new key's prefix (without the sentinel) is a leading substring
  of the previous row's prefix, the previous prefix being possibly strictly longer,
  \<open>ComparePrev\<close> reports \<open>CommonPrefixLen\<close> equal to the new key's full prefix length,
  sentinel included, and \<open>UserKeyComparison\<close> is the comparison of the new key's suffix
  region with the stored previous suffix; the prefixes are not compared. The key is
  shorter than \<open>2^31\<close> bytes, so that its prefix length is an \<open>int32\<close>.
\<close>

theorem ComparePrev_prefix_of_prev:
  assumes rows: "kw_roachKeys kw \<noteq> []"
    and split: "Split key = Some si"
    and len: "int si < 2 ^ 31"
    and pre: "prefix (take (si - 1) key) (last (kw_roachKeys kw))"
  shows "ComparePrev kw key =
           Inr \<lparr>PrefixLen = int si, CommonPrefixLen = int si,
                UserKeyComparison = CompareSuffixes (drop si key) (prevSuffix kw)\<rparr>"
proof -
  from Split_bounds[OF split] have si: "1 \<le> si" "si \<le> length key" by auto
  have pl: "int32 (int si) = int si" using len by (intro int32_id) auto
  have pl1: "int32 (int si - 1) = int si - 1" using len si by (intro int32_id) auto
  have lp: "UnsafeGet (kw_roachKeys kw) (length (kw_roachKeys kw) - Suc 0)
              = Inr (last (kw_roachKeys kw))"
    using rows by (simp add: UnsafeGet_def last_conv_nth)
  have kp: "slice_to key (int si - 1) = Inr (take (si - 1) key)"
    using si by (simp add: slice_to_def nat_diff_distrib')
  have cp: "CommonPrefix (last (kw_roachKeys kw)) (take (si - Suc 0) key) = si - Suc 0"
    using CommonPrefix_of_prefix[OF pre] si by simp
  have cpl: "int32 (int (si - Suc 0)) = int si - 1"
    using pl1 si by (simp add: of_nat_diff)
  have ks: "slice_from key (int si) = Inr (drop si key)"
    using si by (simp add: slice_from_def)
  show ?thesis
    unfolding ComparePrev_def
    using rows
    by (simp add: Let_def split pl pl1 lp kp cp cpl ks int32_small[OF CompareSuffixes_range])
qed

theorem ComparePrev_prefix_of_prev_witness:
  "Split [97, 98, 0] = Some 3 \<and>
   prefix (take (3 - 1) [97, 98, 0 :: byte]) (last [[97, 98, 99]]) \<and>
   ComparePrev \<lparr>kw_roachKeys = [[97, 98, 99]], kw_wallTimes = [0], kw_logicalTimes = [],
                kw_untypedVersions = [[]], prevSuffix = []\<rparr> [97, 98, 0]
     = Inr \<lparr>PrefixLen = 3, CommonPrefixLen = 3, UserKeyComparison = 0\<rparr>"
  using ComparePrev_prefix_of_prev
    [of "\<lparr>kw_roachKeys = [[97, 98, 99]], kw_wallTimes = [0], kw_logicalTimes = [],
          kw_untypedVersions = [[]], prevSuffix = []\<rparr>" "[97, 98, 0]" 3]
  by (simp add: Split_def CompareSuffixes_def cmp_Compare_def)

text \<open>
  Claim C5, at the input where the code departs from it. After the row \<open>"abc" 0x00\<close> the
  key \<open>"ab" 0x00\<close> arrives. The engine comparator orders the new key before the previous
  one (\<open>-1\<close>: its prefix is a proper leading substring), but \<open>ComparePrev\<close> takes the
  prefixes for equal and reports \<open>UserKeyComparison = 0\<close>, the comparison of the two empty
  suffixes.
\<close>

theorem ComparePrev_disagrees_with_Compare:
  "block_ComparePrev [[97, 98, 99, 0]] [97, 98, 0]
     = Inr \<lparr>PrefixLen = 3, CommonPrefixLen = 3, UserKeyComparison = 0\<rparr>
   \<and> Compare [97, 98, 0] [97, 98, 99, 0] = -1"
  by code_simp

section \<open>Materialisation\<close>

text \<open>
  Claim C1, at the input where the code departs from it. The key \<open>"p" 0x00\<close> with wall
  time 10 and logical counter 5 (length byte 13) is written to a block. The writer's
  \<open>MaterializeKey\<close> returns the key; the seeker's \<open>MaterializeUserKey\<close> returns a key
  whose logical field holds the low four bytes of the wall time, \<open>00 00 00 0a\<close>, in place
  of \<open>00 00 00 05\<close>. For the untyped key \<open>"u" 0x00 "vX" 0x03\<close> it is the writer that
  departs: after the untyped version it appends the version's length once more, one byte
  more than the seeker returns.
\<close>

theorem MaterializeUserKey_roundtrip_fails:
  "block_MaterializeKey [[112, 0, 0, 0, 0, 0, 0, 0, 0, 10, 0, 0, 0, 5, 13]] 0
     = Inr [112, 0, 0, 0, 0, 0, 0, 0, 0, 10, 0, 0, 0, 5, 13]
   \<and> block_MaterializeUserKey [[112, 0, 0, 0, 0, 0, 0, 0, 0, 10, 0, 0, 0, 5, 13]] 32 (-1) 0
     = Inr [112, 0, 0, 0, 0, 0, 0, 0, 0, 10, 0, 0, 0, 10, 13]
   \<and> block_MaterializeKey [[117, 0, 118, 88, 3]] 0 = Inr [117, 0, 118, 88, 3, 3]
   \<and> block_MaterializeUserKey [[117, 0, 118, 88, 3]] 32 (-1) 0 = Inr [117, 0, 118, 88, 3]"
  by code_simp

text \<open>
  Claim C2, at the input where the code departs from it. A row with prefix \<open>"p"\<close>, wall
  time \<open>0x0102030405060708\<close> and logical counter \<open>0x0A0B0C0D\<close>: after the eight bytes of
  the wall time, \<open>MaterializeUserKey\<close> writes \<open>05 06 07 08\<close>, the low four bytes of the
  wall time, where the four bytes \<open>0A 0B 0C 0D\<close> of the logical counter belong.
\<close>

theorem MaterializeUserKey_logical_field:
  "MaterializeUserKey
     \<lparr>reader = None, ks_roachKeys = [[112]], mvccWallTimes = [0x0102030405060708],
      mvccLogical = [0x0A0B0C0D], ks_untypedVersions = [[]], sharedPrefix = [112]\<rparr>
     \<lparr>backing = replicate 15 0, buf_len = 0, at_row = 0\<rparr> (-1) 0
   = Inr ([112, 0, 1, 2, 3, 4, 5, 6, 7, 8, 5, 6, 7, 8, 13],
          \<lparr>backing = [112, 0, 1, 2, 3, 4, 5, 6, 7, 8, 5, 6, 7, 8, 13], buf_len = 1,
           at_row = 0\<rparr>)"
  by code_simp

section \<open>The lower bound test\<close>

text \<open>
  Claim C6, at the input where the code departs from it. The block's first key is
  \<open>"k" 0x00\<close> at wall time 200, the query is \<open>"k" 0x00\<close> at wall time 100. Versions sort
  newest first, so the engine comparator puts the first key before the query (\<open>-1\<close>) and
  it is no lower bound; \<open>IsLowerBound\<close> compares the wall times in ascending order and
  answers true.
\<close>

theorem IsLowerBound_disagrees_with_Compare:
  "block_IsLowerBound False [[107, 0, 0, 0, 0, 0, 0, 0, 0, 200, 9]]
       [107, 0, 0, 0, 0, 0, 0, 0, 0, 100, 9] []
     = Inr True
   \<and> Compare [107, 0, 0, 0, 0, 0, 0, 0, 0, 200, 9] [107, 0, 0, 0, 0, 0, 0, 0, 0, 100, 9] = -1"
  by code_simp

section \<open>Release and the advisory arguments of SeekGE\<close>

text \<open>
  Claim C8. After \<open>Release\<close> every field of the seeker has its zero value: the reader
  reference is nil, the four column views and the shared-prefix slice are empty; it is
  this zeroed seeker that enters the pool.
\<close>

theorem Release_clears_all_fields:
  "reader (fst (Release ks pool)) = None
   \<and> ks_roachKeys (fst (Release ks pool)) = []
   \<and> mvccWallTimes (fst (Release ks pool)) = []
   \<and> mvccLogical (fst (Release ks pool)) = []
   \<and> ks_untypedVersions (fst (Release ks pool)) = []
   \<and> sharedPrefix (fst (Release ks pool)) = []
   \<and> snd (Release ks pool) = fst (Release ks pool) # pool"
  by (simp add: Release_def)

text \<open>
  Claim C9. \<open>SeekGE\<close> returns the same result, fault or (row, prefix-equal) pair, for any
  two choices of \<open>boundRow\<close> and \<open>searchDir\<close>: the two arguments have no influence.
\<close>

theorem SeekGE_ignores_boundRow_searchDir:
  "SeekGE ks key boundRow searchDir = SeekGE ks key boundRow' searchDir'"
  by (simp add: SeekGE_def)

section \<open>Order facts and the shared binary search\<close>

lemma bytes_Compare_eq_0: "bytes_Compare a b = 0 \<longleftrightarrow> a = b"
  by (induction a b rule: bytes_Compare.induct) auto

lemma bytes_Compare_antisym: "bytes_Compare b a = - bytes_Compare a b"
  by (induction a b rule: bytes_Compare.induct) auto

lemma bytes_Compare_trans:
  "bytes_Compare a b \<le> 0 \<Longrightarrow> bytes_Compare b c \<le> 0 \<Longrightarrow> bytes_Compare a c \<le> 0"
proof (induction a b arbitrary: c rule: bytes_Compare.induct)
  case 1
  then show ?case by simp
next
  case (2 y ys)
  then show ?case by (cases c) auto
next
  case (3 x xs)
  then show ?case by simp
next
  case (4 x xs y ys)
  then show ?case by (cases c) (auto split: if_splits)
qed

lemma bytes_Compare_ge_trans:
  "bytes_Compare a b \<ge> 0 \<Longrightarrow> bytes_Compare b c \<ge> 0 \<Longrightarrow> bytes_Compare a c \<ge> 0"
  using bytes_Compare_trans[of c b a] bytes_Compare_antisym[of a b]
    bytes_Compare_antisym[of b c] bytes_Compare_antisym[of a c]
  by simp

lemma bsearch_spec:
  assumes "l \<le> u" and "\<And>i j. l \<le> i \<Longrightarrow> i \<le> j \<Longrightarrow> j < u \<Longrightarrow> P i \<Longrightarrow> P j"
  shows "l \<le> bsearch P l u \<and> bsearch P l u \<le> u
         \<and> (\<forall>i. l \<le> i \<and> i < bsearch P l u \<longrightarrow> \<not> P i)
         \<and> (\<forall>i. bsearch P l u \<le> i \<and> i < u \<longrightarrow> P i)"
  using assms
proof (induction P l u rule: bsearch.induct)
  case (1 P l u)
  let ?h = "(l + u) div 2"
  show ?case
  proof (cases "l < u")
    case False
    then have b: "bsearch P l u = l" by (subst bsearch.simps) simp
    have e: "\<not> (l \<le> i \<and> i < l)" "\<not> (l \<le> i \<and> i < u)" for i
      using False by arith+
    show ?thesis
      unfolding b
    proof (intro conjI allI impI)
      show "l \<le> l" by simp
      show "l \<le> u" by (rule "1.prems"(1))
      show "\<not> P i" if "l \<le> i \<and> i < l" for i using that e(1) by blast
      show "P i" if "l \<le> i \<and> i < u" for i using that e(2) by blast
    qed
  next
    case lu: True
    then have h: "l \<le> ?h" "?h < u" by arith+
    show ?thesis
    proof (cases "P ?h")
      case True
      have mono: "P j" if "l \<le> i" "i \<le> j" "j < ?h" "P i" for i j
      proof -
        have "j < u" using that(3) h(2) by (rule less_trans)
        then show ?thesis using "1.prems"(2)[OF that(1) that(2) _ that(4)] by blast
      qed
      have eq: "bsearch P l u = bsearch P l ?h"
        using lu True by (subst bsearch.simps) simp
      have ih: "l \<le> bsearch P l ?h \<and> bsearch P l ?h \<le> ?h
         \<and> (\<forall>i. l \<le> i \<and> i < bsearch P l ?h \<longrightarrow> \<not> P i)
         \<and> (\<forall>i. bsearch P l ?h \<le> i \<and> i < ?h \<longrightarrow> P i)"
      proof (rule "1.IH"(1)[OF lu True h(1)])
        fix i j assume "l \<le> i" "i \<le> j" "j < ?h" "P i"
        then show "P j" by (rule mono)
      qed
      show ?thesis
        unfolding eq
      proof (intro conjI allI impI)
        show "l \<le> bsearch P l ?h" using ih by blast
        have "bsearch P l ?h \<le> ?h" using ih by blast
        then show "bsearch P l ?h \<le> u" using h(2) by linarith
        show "\<not> P i" if "l \<le> i \<and> i < bsearch P l ?h" for i using ih that by blast
        show "P i" if a: "bsearch P l ?h \<le> i \<and> i < u" for i
        proof (cases "i < ?h")
          case True
          then show ?thesis using ih a by blast
        next
          case False
          then have "?h \<le> i" by simp
          from "1.prems"(2)[OF h(1) this _ \<open>P ?h\<close>] a show ?thesis by blast
        qed
      qed
    next
      case False
      have mono: "P j" if "?h + 1 \<le> i" "i \<le> j" "j < u" "P i" for i j
      proof -
        have "l \<le> i" using that(1) h(1) by linarith
        from "1.prems"(2)[OF this that(2) that(3) that(4)] show ?thesis .
      qed
      have le: "?h + 1 \<le> u" using h(2) by simp
      have eq: "bsearch P l u = bsearch P (?h + 1) u"
        using lu False by (subst bsearch.simps) simp
      have ih: "?h + 1 \<le> bsearch P (?h + 1) u \<and> bsearch P (?h + 1) u \<le> u
         \<and> (\<forall>i. ?h + 1 \<le> i \<and> i < bsearch P (?h + 1) u \<longrightarrow> \<not> P i)
         \<and> (\<forall>i. bsearch P (?h + 1) u \<le> i \<and> i < u \<longrightarrow> P i)"
      proof (rule "1.IH"(2)[OF lu False le])
        fix i j assume "?h + 1 \<le> i" "i \<le> j" "j < u" "P i"
        then show "P j" by (rule mono)
      qed
      show ?thesis
        unfolding eq
      proof (intro conjI allI impI)
        have "?h + 1 \<le> bsearch P (?h + 1) u" using ih by blast
        then show "l \<le> bsearch P (?h + 1) u" using h(1) by linarith
        show "bsearch P (?h + 1) u \<le> u" using ih by blast
        show "P i" if "bsearch P (?h + 1) u \<le> i \<and> i < u" for i using ih that by blast
        show "\<not> P i" if a: "l \<le> i \<and> i < bsearch P (?h + 1) u" for i
        proof (cases "?h + 1 \<le> i")
          case True
          then show ?thesis using ih a by blast
        next
          case nle: False
          then have ile: "i \<le> ?h" by simp
          have il: "l \<le> i" using a by blast
          show ?thesis
          proof
            assume "P i"
            from "1.prems"(2)[OF il ile h(2) this] False show False by blast
          qed
        qed
      qed
    qed
  qed
qed

lemma Search_loop_bsearch:
  "PrefixBytes_Search_loop col k l u
     = bsearch (\<lambda>h. h < length col \<and> bytes_Compare (col ! h) k \<ge> 0) l u"
proof (induction col k l u rule: PrefixBytes_Search_loop.induct)
  case (1 col k l u)
  show ?case
    using "1.IH"
    by (subst PrefixBytes_Search_loop.simps, subst bsearch.simps) (simp add: Let_def)
qed

lemma untyped_loop_bsearch:
  "u \<le> length (ks_untypedVersions ks) \<Longrightarrow>
   seekGEOnSuffix_untyped ks s l u
     = Inr (bsearch (\<lambda>h. bytes_Compare (ks_untypedVersions ks ! h) s \<ge> 0) l u)"
proof (induction ks s l u rule: seekGEOnSuffix_untyped.induct)
  case (1 ks s l u)
  show ?case
  proof (cases "l < u")
    case False
    then show ?thesis
      by (subst seekGEOnSuffix_untyped.simps, subst bsearch.simps) simp
  next
    case True
    let ?h = "(l + u) div 2"
    have h: "?h < length (ks_untypedVersions ks)" "?h \<le> length (ks_untypedVersions ks)"
      using True "1.prems" by auto
    have at: "RawBytes_At (ks_untypedVersions ks) ?h = Inr (ks_untypedVersions ks ! ?h)"
      using h by (simp add: RawBytes_At_def)
    show ?thesis
      using "1.IH"(1)[OF True at _ h(2)] "1.IH"(2)[OF True at _ "1.prems"] True
      by (subst seekGEOnSuffix_untyped.simps, subst bsearch.simps) (simp add: at)
  qed
qed

lemma mvcc_loop_bsearch:
  "u \<le> length (mvccWallTimes ks) \<Longrightarrow> u \<le> length (mvccLogical ks) \<Longrightarrow>
   seekGEOnSuffix_mvcc ks w lg l u
     = Inr (bsearch (\<lambda>h. mvccWallTimes ks ! h < w
                        \<or> (mvccWallTimes ks ! h = w \<and> (ucast (mvccLogical ks ! h) :: u32) \<le> lg)) l u)"
proof (induction ks w lg l u rule: seekGEOnSuffix_mvcc.induct)
  case (1 ks w lg l u)
  show ?case
  proof (cases "l < u")
    case False
    then show ?thesis
      by (subst seekGEOnSuffix_mvcc.simps, subst bsearch.simps) simp
  next
    case True
    let ?h = "(l + u) div 2"
    have h: "?h < u" "?h \<le> length (mvccWallTimes ks)" "?h \<le> length (mvccLogical ks)"
      "?h < length (mvccWallTimes ks)" "?h < length (mvccLogical ks)"
      using True "1.prems" by auto
    have at: "UnsafeUints_At (mvccWallTimes ks) ?h = Inr (mvccWallTimes ks ! ?h)"
      "UnsafeUints_At (mvccLogical ks) ?h = Inr (mvccLogical ks ! ?h)"
      using h by (simp_all add: UnsafeUints_At_def)
    show ?thesis
    proof (cases "mvccWallTimes ks ! ?h < w")
      case lt: True
      show ?thesis
        using "1.IH"(1)[OF True at(1) lt h(2) h(3)] True lt
        by (subst seekGEOnSuffix_mvcc.simps, subst bsearch.simps) (simp add: at)
    next
      case nlt: False
      show ?thesis
      proof (cases "mvccWallTimes ks ! ?h = w")
        case eq: True
        have c: "(if mvccWallTimes ks ! ?h = w then UnsafeUints_At (mvccLogical ks) ?h else Inr 0)
                  = Inr (mvccLogical ks ! ?h)" using eq at by simp
        show ?thesis
        proof (cases "(ucast (mvccLogical ks ! ?h) :: u32) \<le> lg")
          case le: True
          show ?thesis
            using "1.IH"(2)[OF True at(1) nlt c _ h(2) h(3)] True nlt eq le
            by (subst seekGEOnSuffix_mvcc.simps, subst bsearch.simps) (simp add: at)
        next
          case nle: False
          show ?thesis
            using "1.IH"(3)[OF True at(1) nlt c _ "1.prems"] True nlt eq nle
            by (subst seekGEOnSuffix_mvcc.simps, subst bsearch.simps) (simp add: at)
        qed
      next
        case neq: False
        have c: "(if mvccWallTimes ks ! ?h = w then UnsafeUints_At (mvccLogical ks) ?h else Inr 0)
                  = Inr 0" using neq by simp
        show ?thesis
          using "1.IH"(3)[OF True at(1) nlt c _ "1.prems"] True nlt neq
          by (subst seekGEOnSuffix_mvcc.simps, subst bsearch.simps) (simp add: at)
      qed
    qed
  qed
qed

section \<open>What a written block holds\<close>

lemma wf_key_Split: "wf_key k \<Longrightarrow> \<exists>si. Split k = Some si"
  by (auto simp: wf_key_def DecodeEngineKey_def split: option.splits)

lemma wf_key_Decode:
  assumes "wf_key k"
  shows "DecodeEngineKey k
           = Some (key_prefix k, stored_untyped (key_suffix k), stored_wall (key_suffix k),
                   stored_logical (key_suffix k))"
proof -
  from wf_key_Split[OF assms] obtain si where si: "Split k = Some si" by blast
  have d: "DecodeEngineKey k \<noteq> None" using assms by (auto simp: wf_key_def split: option.splits)
  show ?thesis
    using d unfolding DecodeEngineKey_def si
    by (auto simp: Let_def key_prefix_def key_suffix_def si stored_untyped_def stored_wall_def
        stored_logical_def is_mvcc_def suffix_wall_def suffix_logical_def split: if_splits)
qed

lemma UintBuilder_Get_Set:
  "UintBuilder_Get (UintBuilder_Set b row v) i = (if i = row then v else UintBuilder_Get b i)"
  by (auto simp: UintBuilder_Get_def UintBuilder_Set_def nth_append)

lemma ComparePrev_ok:
  assumes split: "Split key = Some si" and len: "int (length key) < 2 ^ 31"
  shows "\<exists>c. ComparePrev kw key = Inr c \<and> PrefixLen c = int si"
proof -
  from Split_bounds[OF split] have si: "1 \<le> si" "si \<le> length key" by auto
  have pl: "int32 (int si) = int si" using len si by (intro int32_id) auto
  have pl1: "int32 (int si - 1) = int si - 1" using len si by (intro int32_id) auto
  show ?thesis
  proof (cases "kw_roachKeys kw = []")
    case True
    then show ?thesis unfolding ComparePrev_def by (simp add: split pl Let_def)
  next
    case rows: False
    define lp where "lp = last (kw_roachKeys kw)"
    define cp where "cp = CommonPrefix lp (take (si - Suc 0) key)"
    have lpe: "UnsafeGet (kw_roachKeys kw) (length (kw_roachKeys kw) - Suc 0) = Inr lp"
      using rows by (simp add: UnsafeGet_def last_conv_nth lp_def)
    have kp: "slice_to key (int si - 1) = Inr (take (si - Suc 0) key)"
      using si by (simp add: slice_to_def nat_diff_distrib')
    have cple: "cp \<le> length lp" "cp \<le> si - 1"
      using CommonPrefix_le[of lp "take (si - Suc 0) key"] si by (auto simp: cp_def)
    have cpl: "int32 (int cp) = int cp"
      using cple len si by (intro int32_id) auto
    have ks: "slice_from key (int si) = Inr (drop si key)"
      using si by (simp add: slice_from_def)
    have ik: "index_at key (int cp) = Inr (key ! cp)"
      using cple si by (simp add: index_at_def)
    have il: "int (length lp) \<noteq> int cp \<Longrightarrow> index_at lp (int cp) = Inr (lp ! cp)"
      using cple by (simp add: index_at_def)
    show ?thesis
      unfolding ComparePrev_def
      using rows il
      by (simp add: Let_def split pl pl1 lpe kp cp_def[symmetric] cpl ks ik)
  qed
qed

lemma Add_step:
  assumes inv: "writer_holds w keys" and wf: "wf_key k" and len: "int (length k) < 2 ^ 31"
  shows "\<exists>w'. DataBlockWriter_Add w k = Inr w' \<and> writer_holds w' (keys @ [k])"
proof -
  from wf_key_Split[OF wf] obtain si where si: "Split k = Some si" by blast
  from ComparePrev_ok[OF si len] obtain c where
    c: "ComparePrev (KeyWriter w) k = Inr c" "PrefixLen c = int si" by blast
  from Split_bounds[OF si] have sib: "1 \<le> si" "si \<le> length k" by auto
  have sl: "slice_from k (int si) = Inr (drop si k)"
    using sib by (simp add: slice_from_def)
  have rows: "w_rows w = length keys" using inv by (simp add: writer_holds_def)
  show ?thesis
    unfolding DataBlockWriter_Add_def c sum.case WriteKey_def wf_key_Decode[OF wf] option.case
      prod.case sl
    using inv
    by (auto simp: writer_holds_def UintBuilder_Get_Set PrefixBytesBuilder_Put_def
        RawBytesBuilder_Put_def nth_append key_suffix_def si word_gt_0)
qed

lemma AddAll_holds:
  assumes "writer_holds w keys0" and "list_all wf_key keys"
    and "list_all (\<lambda>k. int (length k) < 2 ^ 31) keys"
  shows "\<exists>w'. DataBlockWriter_AddAll w keys = Inr w' \<and> writer_holds w' (keys0 @ keys)"
  using assms
proof (induction keys arbitrary: w keys0)
  case Nil
  then show ?case by simp
next
  case (Cons k keys)
  from Cons.prems have wf: "wf_key k" and len: "int (length k) < 2 ^ 31" by auto
  from Add_step[OF Cons.prems(1) wf len] obtain w1 where
    w1: "DataBlockWriter_Add w k = Inr w1" "writer_holds w1 (keys0 @ [k])" by blast
  from Cons.IH[OF w1(2)] Cons.prems obtain w' where
    "DataBlockWriter_AddAll w1 keys = Inr w'" "writer_holds w' ((keys0 @ [k]) @ keys)" by auto
  then show ?case using w1 by simp
qed

lemma Init_holds: "writer_holds DataBlockWriter_Init []"
  by (simp add: writer_holds_def DataBlockWriter_Init_def NewKeyWriter_def UintBuilder_Get_def)

lemma blockSeeker_columns:
  assumes "list_all wf_key keys" and "list_all (\<lambda>k. int (length k) < 2 ^ 31) keys"
  shows "blockSeeker keys =
           Inr \<lparr>reader = Some \<lparr>r_roachKeys = map key_prefix keys,
                  r_mvccWallTimes = map (\<lambda>k. stored_wall (key_suffix k)) keys,
                  r_mvccLogical = map (\<lambda>k. ucast (stored_logical (key_suffix k))) keys,
                  r_untypedVersions = map (\<lambda>k. stored_untyped (key_suffix k)) keys,
                  prefixChanged = prefixChanged_bits (map key_prefix keys)\<rparr>,
                ks_roachKeys = map key_prefix keys,
                mvccWallTimes = map (\<lambda>k. stored_wall (key_suffix k)) keys,
                mvccLogical = map (\<lambda>k. ucast (stored_logical (key_suffix k))) keys,
                ks_untypedVersions = map (\<lambda>k. stored_untyped (key_suffix k)) keys,
                sharedPrefix = SharedPrefix (map key_prefix keys)\<rparr>"
proof -
  from AddAll_holds[OF Init_holds assms] obtain w where
    w: "DataBlockWriter_AddAll DataBlockWriter_Init keys = Inr w" "writer_holds w keys" by auto
  have walls: "map (UintBuilder_Get (kw_wallTimes (KeyWriter w))) [0..<length keys]
                = map (\<lambda>k. stored_wall (key_suffix k)) keys"
    using w(2) by (intro nth_equalityI) (auto simp: writer_holds_def)
  have logs: "map (UintBuilder_Get (kw_logicalTimes (KeyWriter w))) [0..<length keys]
                = map (\<lambda>k. ucast (stored_logical (key_suffix k))) keys"
    using w(2) by (intro nth_equalityI) (auto simp: writer_holds_def)
  show ?thesis
    unfolding blockSeeker_def writeBlock_def w sum.case DataBlockWriter_Finish_def Init_def
    using w(2) walls logs by (simp add: writer_holds_def)
qed

section \<open>Runs of equal prefixes\<close>

lemma SeekSetBitGE_spec:
  assumes "i \<le> length bm"
  shows "i \<le> SeekSetBitGE bm i" and "SeekSetBitGE bm i \<le> length bm"
    and "\<And>j. i \<le> j \<Longrightarrow> j < SeekSetBitGE bm i \<Longrightarrow> \<not> bm ! j"
    and "SeekSetBitGE bm i < length bm \<Longrightarrow> bm ! SeekSetBitGE bm i"
proof -
  let ?t = "takeWhile Not (drop i bm)"
  have u: "SeekSetBitGE bm i = i + length ?t"
    using assms by (auto simp: SeekSetBitGE_def)
  have tl: "length ?t \<le> length bm - i"
    using length_takeWhile_le[of Not "drop i bm"] by simp
  show "i \<le> SeekSetBitGE bm i" using u by simp
  show "SeekSetBitGE bm i \<le> length bm" using u tl assms by simp
  show "\<not> bm ! j" if "i \<le> j" "j < SeekSetBitGE bm i" for j
  proof -
    have jl: "j - i < length ?t" using that u by simp
    then have "?t ! (j - i) \<in> set ?t" by (rule nth_mem)
    then have "\<not> ?t ! (j - i)" using set_takeWhileD by fastforce
    moreover have "?t ! (j - i) = drop i bm ! (j - i)" using jl by (rule takeWhile_nth)
    moreover have "drop i bm ! (j - i) = bm ! j" using that assms by simp
    ultimately show ?thesis by simp
  qed
  show "bm ! SeekSetBitGE bm i" if "SeekSetBitGE bm i < length bm"
  proof -
    have "length ?t < length (drop i bm)" using that u by simp
    from nth_length_takeWhile[OF this] have "drop i bm ! length ?t" by simp
    then show ?thesis using u that by (simp add: add.commute)
  qed
qed

lemma prefixChanged_bits_nth:
  "j < length col \<Longrightarrow> prefixChanged_bits col ! j = (if j = 0 then True else col ! j \<noteq> col ! (j - 1))"
  by (simp add: prefixChanged_bits_def)

lemma run_constant:
  assumes "r < length col" and "u = SeekSetBitGE (prefixChanged_bits col) (r + 1)"
  shows "r < u" and "u \<le> length col"
    and "\<And>j. r \<le> j \<Longrightarrow> j < u \<Longrightarrow> col ! j = col ! r"
    and "u < length col \<Longrightarrow> col ! u \<noteq> col ! r"
proof -
  let ?bm = "prefixChanged_bits col"
  have len: "length ?bm = length col" by (simp add: prefixChanged_bits_def)
  have i: "r + 1 \<le> length ?bm" using assms(1) len by simp
  note sp = SeekSetBitGE_spec[OF i, folded assms(2)]
  show "r < u" using sp(1) by simp
  show ul: "u \<le> length col" using sp(2) len by simp
  show run: "col ! j = col ! r" if "r \<le> j" "j < u" for j
    using that
  proof (induction j)
    case 0
    then show ?case by simp
  next
    case (Suc j)
    show ?case
    proof (cases "r = Suc j")
      case True
      then show ?thesis by simp
    next
      case False
      then have rj: "r \<le> j" "j < u" using Suc.prems by simp_all
      have "r + 1 \<le> Suc j" using rj by simp
      from sp(3)[OF this Suc.prems(2)] have "\<not> ?bm ! Suc j" .
      moreover have "Suc j < length col" using Suc.prems(2) ul by simp
      ultimately have "col ! Suc j = col ! j" by (simp add: prefixChanged_bits_nth)
      then show ?thesis using Suc.IH[OF rj] by simp
    qed
  qed
  show "col ! u \<noteq> col ! r" if "u < length col"
  proof -
    have "?bm ! u" using sp(4) that len by simp
    moreover have "u \<noteq> 0" using \<open>r < u\<close> by simp
    ultimately have "col ! u \<noteq> col ! (u - 1)" using that by (simp add: prefixChanged_bits_nth)
    moreover have "col ! (u - 1) = col ! r" using run[of "u - 1"] \<open>r < u\<close> by simp
    ultimately show ?thesis by simp
  qed
qed

lemma Compare_wf:
  assumes "wf_key a" and "wf_key b"
  shows "Compare a b =
           (if bytes_Compare (key_prefix a) (key_prefix b) \<noteq> 0
            then bytes_Compare (key_prefix a) (key_prefix b)
            else CompareSuffixes (key_suffix a) (key_suffix b))"
proof -
  from wf_key_Split[OF assms(1)] obtain i where i: "Split a = Some i" by blast
  from wf_key_Split[OF assms(2)] obtain j where j: "Split b = Some j" by blast
  show ?thesis
    by (simp add: Compare_def key_prefix_def key_suffix_def i j Let_def)
qed

lemma ucast_logical_roundtrip: "(ucast (ucast (x :: u32) :: u64) :: u32) = x"
  by (rule ucast_up_ucast_id) (simp add: is_up)

lemma bytes_Compare_Nil_left: "s \<noteq> [] \<Longrightarrow> bytes_Compare [] s = -1"
  by (cases s) simp_all

lemma mvcc_pred:
  assumes "is_mvcc s" and "is_mvcc sq"
  shows "(CompareSuffixes s sq \<ge> 0) \<longleftrightarrow>
         (suffix_wall s < suffix_wall sq
          \<or> (suffix_wall s = suffix_wall sq \<and> suffix_logical s \<le> suffix_logical sq))"
proof -
  have ne: "s \<noteq> []" "sq \<noteq> []" using assms by (auto simp: is_mvcc_def)
  show ?thesis
    using assms ne by (auto simp: CompareSuffixes_def cmp_Compare_def)
qed

lemma mvcc_mono:
  assumes "is_mvcc a" and "is_mvcc b" and "CompareSuffixes a b \<le> 0"
    and "suffix_wall a < w \<or> (suffix_wall a = w \<and> suffix_logical a \<le> lg)"
  shows "suffix_wall b < w \<or> (suffix_wall b = w \<and> suffix_logical b \<le> lg)"
proof -
  have ne: "a \<noteq> []" "b \<noteq> []" using assms by (auto simp: is_mvcc_def)
  have "suffix_wall b < suffix_wall a
        \<or> (suffix_wall b = suffix_wall a \<and> suffix_logical b \<le> suffix_logical a)"
    using assms(1-3) ne by (auto simp: CompareSuffixes_def cmp_Compare_def split: if_splits)
  then show ?thesis using assms(4) by auto
qed

lemma untyped_pred:
  assumes "\<not> is_mvcc sq" and "sq \<noteq> []"
  shows "(CompareSuffixes s sq \<ge> 0) \<longleftrightarrow> (bytes_Compare s sq \<ge> 0)"
  using assms by (auto simp: CompareSuffixes_def cmp_Compare_def bytes_Compare_Nil_left)

lemma untyped_mono:
  assumes "\<not> is_mvcc a" and "CompareSuffixes a b \<le> 0" and "bytes_Compare a sq \<ge> 0"
    and "sq \<noteq> []"
  shows "bytes_Compare b sq \<ge> 0"
proof -
  have a: "a \<noteq> []" using assms(3,4) bytes_Compare_Nil_left[of sq] by auto
  have b: "b \<noteq> []" using assms(2) a by (auto simp: CompareSuffixes_def cmp_Compare_def)
  have "bytes_Compare a b \<le> 0" using assms(1,2) a b by (simp add: CompareSuffixes_def)
  then have "bytes_Compare b a \<ge> 0" using bytes_Compare_antisym[of a b] by simp
  then show ?thesis using assms(3) by (rule bytes_Compare_ge_trans)
qed

lemma CompareSuffixes_Nil_right: "CompareSuffixes s [] \<ge> 0"
  by (simp add: CompareSuffixes_def cmp_Compare_def)

lemma sorted_prefixes:
  assumes "sorted_wrt (\<lambda>a b. Compare a b \<le> 0) keys" and "list_all wf_key keys"
    and "i \<le> j" and "j < length keys"
  shows "bytes_Compare (key_prefix (keys ! i)) (key_prefix (keys ! j)) \<le> 0"
proof (cases "i = j")
  case True
  then show ?thesis using bytes_Compare_eq_0[of "key_prefix (keys ! i)" "key_prefix (keys ! j)"] by simp
next
  case False
  then have "i < j" using assms(3) by simp
  from sorted_wrt_nth_less[OF assms(1) this assms(4)]
  have c: "Compare (keys ! i) (keys ! j) \<le> 0" .
  have "wf_key (keys ! i)" "wf_key (keys ! j)"
    using assms(2,3,4) by (simp_all add: list_all_length)
  from Compare_wf[OF this] c show ?thesis by (auto split: if_splits)
qed

lemma sorted_suffixes:
  assumes "sorted_wrt (\<lambda>a b. Compare a b \<le> 0) keys" and "list_all wf_key keys"
    and "i < j" and "j < length keys"
    and "key_prefix (keys ! i) = key_prefix (keys ! j)"
  shows "CompareSuffixes (key_suffix (keys ! i)) (key_suffix (keys ! j)) \<le> 0"
proof -
  from sorted_wrt_nth_less[OF assms(1) assms(3) assms(4)]
  have c: "Compare (keys ! i) (keys ! j) \<le> 0" .
  have "wf_key (keys ! i)" "wf_key (keys ! j)"
    using assms(2,3,4) by (simp_all add: list_all_length)
  from Compare_wf[OF this] c assms(5) show ?thesis
    by (simp add: bytes_Compare_eq_0)
qed

lemma least_ge_from_parts:
  fixes c :: "nat \<Rightarrow> int"
  assumes "r \<le> res" and "res \<le> u" and "u \<le> N"
    and below: "\<And>i. i < r \<Longrightarrow> c i < 0"
    and mid_lo: "\<And>i. r \<le> i \<Longrightarrow> i < res \<Longrightarrow> c i < 0"
    and mid_hi: "res < u \<Longrightarrow> c res \<ge> 0"
    and above: "u < N \<Longrightarrow> c u \<ge> 0"
  shows "res \<le> N \<and> (\<forall>i<res. c i < 0) \<and> (res < N \<longrightarrow> c res \<ge> 0)"
proof (intro conjI allI impI)
  show "res \<le> N" using assms(2,3) by simp
  show "c i < 0" if "i < res" for i
    using that below[of i] mid_lo[of i] by (cases "i < r") simp_all
  show "c res \<ge> 0" if "res < N"
  proof (cases "res < u")
    case True then show ?thesis by (rule mid_hi)
  next
    case False
    then have "res = u" using assms(2) by simp
    then show ?thesis using above that by simp
  qed
qed

lemma Search_spec:
  assumes sorted: "\<forall>i j. i \<le> j \<and> j < length col \<longrightarrow> bytes_Compare (col ! i) (col ! j) \<le> 0"
  shows "fst (PrefixBytes_Search col k) \<le> length col"
    and "\<And>i. i < fst (PrefixBytes_Search col k) \<Longrightarrow> bytes_Compare (col ! i) k < 0"
    and "\<And>i. fst (PrefixBytes_Search col k) \<le> i \<Longrightarrow> i < length col
              \<Longrightarrow> bytes_Compare (col ! i) k \<ge> 0"
    and "snd (PrefixBytes_Search col k) \<longleftrightarrow>
           fst (PrefixBytes_Search col k) < length col
           \<and> col ! fst (PrefixBytes_Search col k) = k"
proof -
  let ?P = "\<lambda>h. h < length col \<and> bytes_Compare (col ! h) k \<ge> 0"
  let ?r = "bsearch ?P 0 (length col)"
  have r: "fst (PrefixBytes_Search col k) = ?r"
    by (simp add: PrefixBytes_Search_def Search_loop_bsearch Let_def)
  have mono: "?P j" if "0 \<le> i" "i \<le> j" "j < length col" "?P i" for i j
  proof -
    have "bytes_Compare (col ! i) (col ! j) \<le> 0"
      using sorted that(2,3) by blast
    then have "bytes_Compare (col ! j) (col ! i) \<ge> 0"
      using bytes_Compare_antisym[of "col ! i" "col ! j"] by simp
    moreover have "bytes_Compare (col ! i) k \<ge> 0" using that(4) by simp
    ultimately have "bytes_Compare (col ! j) k \<ge> 0"
      by (rule bytes_Compare_ge_trans)
    then show ?thesis using that(3) by simp
  qed
  have sp: "0 \<le> ?r \<and> ?r \<le> length col \<and> (\<forall>i. 0 \<le> i \<and> i < ?r \<longrightarrow> \<not> ?P i)
            \<and> (\<forall>i. ?r \<le> i \<and> i < length col \<longrightarrow> ?P i)"
  proof (rule bsearch_spec[where P = ?P and l = 0 and u = "length col"])
    show "0 \<le> length col" by simp
    fix i j assume "0 \<le> i" "i \<le> j" "j < length col" "?P i"
    then show "?P j" by (rule mono)
  qed
  have r_le: "?r \<le> length col" using sp by blast
  have lo: "\<not> ?P i" if "i < ?r" for i using sp that by blast
  have hi: "?P i" if "?r \<le> i" "i < length col" for i using sp that by blast
  show "fst (PrefixBytes_Search col k) \<le> length col" unfolding r by (rule r_le)
  show "bytes_Compare (col ! i) k < 0" if "i < fst (PrefixBytes_Search col k)" for i
  proof -
    have ir: "i < ?r" using that unfolding r .
    then have "i < length col" using r_le by simp
    then show ?thesis using lo[OF ir] by simp
  qed
  show "bytes_Compare (col ! i) k \<ge> 0"
    if "fst (PrefixBytes_Search col k) \<le> i" "i < length col" for i
  proof -
    have "?r \<le> i" using that(1) unfolding r .
    from hi[OF this that(2)] show ?thesis by simp
  qed
  show "snd (PrefixBytes_Search col k) \<longleftrightarrow>
           fst (PrefixBytes_Search col k) < length col
           \<and> col ! fst (PrefixBytes_Search col k) = k"
    by (simp add: PrefixBytes_Search_def Let_def)
qed

section \<open>How far the writer's comparison agrees with the comparator\<close>

text \<open>
  \<open>ComparePrev\<close> decides the order of the prefixes from their common length. Unless the
  previous row's prefix strictly extends the new key's prefix, its \<open>UserKeyComparison\<close>
  is the engine comparator's result for the new key against the previous one.
\<close>

lemma CommonPrefix_diverge:
  "CommonPrefix a b < length a \<Longrightarrow> CommonPrefix a b < length b \<Longrightarrow>
   bytes_Compare b a = cmp_Compare (b ! CommonPrefix a b) (a ! CommonPrefix a b)"
  by (induction a b rule: CommonPrefix.induct) (auto simp: cmp_Compare_def)

lemma CommonPrefix_shorter:
  "CommonPrefix a b = length a \<Longrightarrow> length a < length b \<Longrightarrow> bytes_Compare b a = 1"
proof (induction a arbitrary: b)
  case Nil
  then show ?case by (cases b) simp_all
next
  case (Cons x a)
  then show ?case by (cases b) (auto split: if_splits)
qed

lemma CommonPrefix_is_prefix:
  "CommonPrefix a b = length b \<Longrightarrow> prefix b a"
  by (induction a b rule: CommonPrefix.induct) (auto split: if_splits)

lemma ComparePrev_agrees:
  assumes rows: "kw_roachKeys kw \<noteq> []"
    and split: "Split key = Some si"
    and len: "int (length key) < 2 ^ 31"
    and nsp: "\<not> strict_prefix (take (si - 1) key) (last (kw_roachKeys kw))"
  shows "\<exists>c. ComparePrev kw key = Inr c \<and>
           UserKeyComparison c =
             (if bytes_Compare (take (si - 1) key) (last (kw_roachKeys kw)) \<noteq> 0
              then bytes_Compare (take (si - 1) key) (last (kw_roachKeys kw))
              else CompareSuffixes (drop si key) (prevSuffix kw))"
proof -
  from Split_bounds[OF split] have si: "1 \<le> si" "si \<le> length key" by auto
  define lp where "lp = last (kw_roachKeys kw)"
  define kp where "kp = take (si - Suc 0) key"
  define cp where "cp = CommonPrefix lp kp"
  have kpl: "length kp = si - 1" using si by (simp add: kp_def)
  have pl: "int32 (int si) = int si" using len si by (intro int32_id) auto
  have pl1: "int32 (int si - 1) = int si - 1" using len si by (intro int32_id) auto
  have lpe: "UnsafeGet (kw_roachKeys kw) (length (kw_roachKeys kw) - Suc 0) = Inr lp"
    using rows by (simp add: UnsafeGet_def last_conv_nth lp_def)
  have kpe: "slice_to key (int si - 1) = Inr kp"
    using si by (simp add: slice_to_def nat_diff_distrib' kp_def)
  have cple: "cp \<le> length lp" "cp \<le> si - 1"
    using CommonPrefix_le[of lp kp] kpl by (auto simp: cp_def)
  have cpl: "int32 (int cp) = int cp"
    using cple len si by (intro int32_id) auto
  have ks: "slice_from key (int si) = Inr (drop si key)"
    using si by (simp add: slice_from_def)
  have ik: "index_at key (int cp) = Inr (key ! cp)"
    using cple si by (simp add: index_at_def)
  have il: "int (length lp) \<noteq> int cp \<Longrightarrow> index_at lp (int cp) = Inr (lp ! cp)"
    using cple by (simp add: index_at_def)
  have nsp': "\<not> strict_prefix kp lp" using nsp by (simp add: kp_def lp_def)
  show ?thesis
  proof (cases "cp = si - 1")
    case True
    then have "prefix kp lp" using CommonPrefix_is_prefix[of lp kp] kpl by (simp add: cp_def)
    then have "kp = lp" using nsp' by (auto simp: strict_prefix_def)
    then have z: "bytes_Compare kp lp = 0" by (simp add: bytes_Compare_eq_0)
    have e: "int cp = int si - 1" using True si by (simp add: of_nat_diff)
    show ?thesis
      unfolding ComparePrev_def
      using rows z e
      by (simp add: Let_def split pl pl1 lpe kpe cp_def[symmetric] cpl ks
          kp_def[symmetric] lp_def[symmetric] int32_small[OF CompareSuffixes_range])
  next
    case False
    then have ne: "int cp \<noteq> int si - 1" using si by (simp add: of_nat_diff)
    have lt: "cp < length kp" using False cple kpl by simp
    show ?thesis
    proof (cases "cp = length lp")
      case True
      then have one: "bytes_Compare kp lp = 1"
        using CommonPrefix_shorter[of lp kp] lt by (simp add: cp_def)
      have c0: "CommonPrefix lp kp = length lp" using True by (simp add: cp_def)
      have c1: "int32 (int (length lp)) = int (length lp)" using cpl True by simp
      have c2: "int (length lp) \<noteq> int si - 1" using ne True by simp
      show ?thesis
        unfolding ComparePrev_def
        using rows one c2
        by (simp add: Let_def split pl pl1 lpe kpe c0 c1
            kp_def[symmetric] lp_def[symmetric])
    next
      case nl: False
      then have ltl: "cp < length lp" using cple by simp
      have d: "bytes_Compare kp lp = cmp_Compare (kp ! cp) (lp ! cp)"
        using CommonPrefix_diverge[of lp kp] lt ltl by (simp add: cp_def)
      have kc: "kp ! cp = key ! cp" using lt kpl by (simp add: kp_def)
      have nz: "cmp_Compare (key ! cp) (lp ! cp) \<noteq> 0 \<or> bytes_Compare kp lp = 0"
        using d kc by auto
      have "bytes_Compare kp lp \<noteq> 0"
      proof
        assume "bytes_Compare kp lp = 0"
        then have "kp = lp" by (simp add: bytes_Compare_eq_0)
        then have "CommonPrefix lp kp = length kp" using CommonPrefix_of_prefix[of kp lp] by simp
        then show False using lt by (simp add: cp_def)
      qed
      then show ?thesis
        unfolding ComparePrev_def
        using rows ne nl d kc il
        by (simp add: Let_def split pl pl1 lpe kpe cp_def[symmetric] cpl ik
            kp_def[symmetric] lp_def[symmetric] int32_small[OF cmp_Compare_range])
    qed
  qed
qed

lemma ComparePrev_agrees_with_Compare:
  assumes "kw_roachKeys kw \<noteq> []" and "last (kw_roachKeys kw) = key_prefix prev"
    and "prevSuffix kw = key_suffix prev" and "wf_key prev" and "wf_key key"
    and "int (length key) < 2 ^ 31"
    and "\<not> strict_prefix (key_prefix key) (key_prefix prev)"
  shows "\<exists>c. ComparePrev kw key = Inr c \<and> UserKeyComparison c = Compare key prev"
proof -
  from wf_key_Split[OF assms(5)] obtain si where si: "Split key = Some si" by blast
  have kp: "key_prefix key = take (si - 1) key" and ks: "key_suffix key = drop si key"
    by (simp_all add: key_prefix_def key_suffix_def si)
  have nsp: "\<not> strict_prefix (take (si - 1) key) (last (kw_roachKeys kw))"
    using assms(7) unfolding kp assms(2) .
  from ComparePrev_agrees[OF assms(1) si assms(6) nsp]
  show ?thesis unfolding Compare_wf[OF assms(5) assms(4)] kp ks assms(2) assms(3) .
qed

section \<open>Seeking\<close>

text \<open>
  Claim C3, as amended. Let a block be written from well-formed keys, each shorter than
  \<open>2^31\<close> bytes, sorted by the engine comparator, and let \<open>q\<close> be a well-formed query
  whose suffix is not 14 bytes long, such that every block key with the prefix of \<open>q\<close> is
  of the kind of \<open>q\<close> (MVCC keys for an MVCC query; bare or untyped keys for an untyped
  query; any keys for a query without suffix). Then \<open>SeekGE\<close> returns, whatever
  \<open>boundRow\<close> and \<open>searchDir\<close> are, a row that is the smallest index \<open>i\<close> with
  \<open>key i \<ge> q\<close> under the engine comparator, or the row count if there is none.
\<close>
theorem SeekGE_least_ge:
  assumes wf: "list_all wf_key keys" and wfq: "wf_key q"
    and short: "list_all (\<lambda>k. int (length k) < 2 ^ 31) keys"
    and sorted: "sorted_wrt (\<lambda>a b. Compare a b \<le> 0) keys"
    and kinds: "list_all (same_kind q) keys"
    and q14: "length (key_suffix q) \<noteq> 14"
  shows "\<exists>row eq. block_SeekGE keys q boundRow searchDir = Inr (row, eq)
           \<and> row \<le> length keys
           \<and> (\<forall>i<row. Compare (keys ! i) q < 0)
           \<and> (row < length keys \<longrightarrow> Compare (keys ! row) q \<ge> 0)"
proof -
  define N where "N = length keys"
  define col where "col = map key_prefix keys"
  define walls where "walls = map (\<lambda>k. stored_wall (key_suffix k)) keys"
  define logs where "logs = map (\<lambda>k. (ucast (stored_logical (key_suffix k)) :: u64)) keys"
  define utv where "utv = map (\<lambda>k. stored_untyped (key_suffix k)) keys"
  define rd where "rd = \<lparr>r_roachKeys = col, r_mvccWallTimes = walls, r_mvccLogical = logs,
     r_untypedVersions = utv, prefixChanged = prefixChanged_bits col\<rparr>"
  define ks where "ks = \<lparr>reader = Some rd, ks_roachKeys = col, mvccWallTimes = walls,
     mvccLogical = logs, ks_untypedVersions = utv, sharedPrefix = SharedPrefix col\<rparr>"
  define pq where "pq = key_prefix q"
  define sq where "sq = key_suffix q"
  define c where "c = (\<lambda>i. Compare (keys ! i) q)"
  have seeker: "blockSeeker keys = Inr ks"
    unfolding ks_def rd_def col_def walls_def logs_def utv_def
    by (rule blockSeeker_columns[OF wf short])
  have lens: "length col = N" "length walls = N" "length logs = N" "length utv = N"
    by (simp_all add: col_def walls_def logs_def utv_def N_def)
  have sel: "ks_roachKeys ks = col" "mvccWallTimes ks = walls" "mvccLogical ks = logs"
    "ks_untypedVersions ks = utv" "reader ks = Some rd" "prefixChanged rd = prefixChanged_bits col"
    by (simp_all add: ks_def rd_def)
  have wfi: "wf_key (keys ! i)" if "i < N" for i
    using wf that by (simp add: list_all_length N_def)
  have coli: "col ! i = key_prefix (keys ! i)" if "i < N" for i
    using that by (simp add: col_def N_def)
  have cmp: "c i = (if bytes_Compare (col ! i) pq \<noteq> 0 then bytes_Compare (col ! i) pq
                    else CompareSuffixes (key_suffix (keys ! i)) sq)" if "i < N" for i
    unfolding c_def pq_def sq_def coli[OF that] by (rule Compare_wf[OF wfi[OF that] wfq])
  have colsorted: "bytes_Compare (col ! i) (col ! j) \<le> 0" if "i \<le> j" "j < length col" for i j
  proof -
    have j: "j < N" using that(2) lens by simp
    then have i: "i < N" using that(1) by simp
    show ?thesis
      unfolding coli[OF i] coli[OF j]
      using sorted_prefixes[OF sorted wf that(1)] j by (simp add: N_def)
  qed
  from wf_key_Split[OF wfq] obtain si where si: "Split q = Some si" by blast
  from Split_bounds[OF si] have sib: "1 \<le> si" "si \<le> length q" by auto
  have kp: "slice_to q (int si - 1) = Inr pq"
    using sib by (simp add: slice_to_def pq_def key_prefix_def si nat_diff_distrib')
  have sfx: "slice_from q (int si) = Inr sq"
    using sib by (simp add: slice_from_def sq_def key_suffix_def si)
  define r where "r = fst (PrefixBytes_Search col pq)"
  have cs: "\<forall>i j. i \<le> j \<and> j < length col \<longrightarrow> bytes_Compare (col ! i) (col ! j) \<le> 0"
    using colsorted by blast
  note sp = Search_spec[OF cs, where k = pq, folded r_def]
  have rN: "r \<le> N" using sp(1) lens by simp
  have below: "c i < 0" if "i < r" for i
  proof -
    have "i < N" using that rN by simp
    from cmp[OF this] sp(2)[OF that] show ?thesis by simp
  qed
  have atleast: "bytes_Compare (col ! i) pq \<ge> 0" if "r \<le> i" "i < N" for i
    using sp(3)[OF that(1)] that(2) lens by simp
  show ?thesis
  proof (cases "snd (PrefixBytes_Search col pq)")
    case False
    have res: "block_SeekGE keys q boundRow searchDir = Inr (r, False)"
      unfolding block_SeekGE_def seeker sum.case SeekGE_def si option.case kp sel
      using False by (simp add: r_def)
    have "c r \<ge> 0" if "r < N"
    proof -
      have "col ! r \<noteq> pq" using False sp(4) that lens by simp
      then have "bytes_Compare (col ! r) pq \<noteq> 0" by (simp add: bytes_Compare_eq_0)
      then show ?thesis using cmp[OF that] atleast[OF order_refl that] by simp
    qed
    then have "r \<le> N \<and> (\<forall>i<r. c i < 0) \<and> (r < N \<longrightarrow> c r \<ge> 0)"
      using rN below by blast
    then show ?thesis unfolding res c_def N_def by blast
  next
    case True
    then have rlt: "r < N" and req: "col ! r = pq" using sp(4) lens by simp_all
    define u where "u = SeekSetBitGE (prefixChanged_bits col) (r + 1)"
    have rl: "r < length col" using rlt lens by simp
    note run = run_constant[OF rl u_def]
    have uN: "u \<le> N" using run(2) lens by simp
    have inrun: "col ! j = pq" if "r \<le> j" "j < u" for j
      using run(3)[OF that] req by simp
    have above: "c u \<ge> 0" if "u < N"
    proof -
      have "col ! u \<noteq> pq" using run(4) that lens req by simp
      then have "bytes_Compare (col ! u) pq \<noteq> 0" by (simp add: bytes_Compare_eq_0)
      moreover have "bytes_Compare (col ! u) pq \<ge> 0"
        using atleast[of u] run(1) that by simp
      ultimately show ?thesis using cmp[OF that] by simp
    qed
    have cmprun: "c j = CompareSuffixes (key_suffix (keys ! j)) sq" if "r \<le> j" "j < u" for j
    proof -
      have "j < N" using that uN by simp
      from cmp[OF this] inrun[OF that] show ?thesis by (simp add: bytes_Compare_eq_0)
    qed
    have kind: "is_mvcc (key_suffix (keys ! j)) = is_mvcc sq" if "r \<le> j" "j < u" "sq \<noteq> []" for j
    proof -
      have jN: "j < N" using that uN by simp
      then have "same_kind q (keys ! j)" using kinds by (simp add: list_all_length N_def)
      moreover have "key_prefix (keys ! j) = key_prefix q"
        using inrun[OF that(1,2)] coli[OF jN] by (simp add: pq_def)
      ultimately show ?thesis using that(3) by (simp add: same_kind_def sq_def)
    qed
    have sufsorted: "CompareSuffixes (key_suffix (keys ! i)) (key_suffix (keys ! j)) \<le> 0"
      if "r \<le> i" "i < j" "j < u" for i j
    proof -
      have jN: "j < N" and iN: "i < N" using that uN by simp_all
      have "key_prefix (keys ! i) = key_prefix (keys ! j)"
        using inrun[of i] inrun[of j] that coli[OF iN] coli[OF jN] by simp
      from sorted_suffixes[OF sorted wf that(2) _ this] jN show ?thesis by (simp add: N_def)
    qed
    have goal: "\<exists>res. seekGEOnSuffix ks r sq = Inr res \<and> r \<le> res \<and> res \<le> u
                  \<and> (\<forall>i. r \<le> i \<and> i < res \<longrightarrow> c i < 0) \<and> (res < u \<longrightarrow> c res \<ge> 0)"
    proof (cases "sq = []")
      case True
      have "c r \<ge> 0" using cmprun[OF order_refl run(1)] True CompareSuffixes_Nil_right by simp
      moreover have "seekGEOnSuffix ks r sq = Inr r" using True by (simp add: seekGEOnSuffix_def)
      ultimately show ?thesis using run(1) by auto
    next
      case ne: False
      show ?thesis
      proof (cases "is_mvcc sq")
        case mv: True
        define w where "w = suffix_wall sq"
        define lg where "lg = suffix_logical sq"
        let ?P = "\<lambda>h. mvccWallTimes ks ! h < w
                        \<or> (mvccWallTimes ks ! h = w \<and> (ucast (mvccLogical ks ! h) :: u32) \<le> lg)"
        have code: "seekGEOnSuffix ks r sq = seekGEOnSuffix_mvcc ks w lg r u"
          using mv q14 ne
          by (auto simp: seekGEOnSuffix_def sel u_def w_def lg_def is_mvcc_def suffix_wall_def
              suffix_logical_def sq_def)
        have loop: "seekGEOnSuffix_mvcc ks w lg r u = Inr (bsearch ?P r u)"
          by (rule mvcc_loop_bsearch) (simp_all add: sel lens uN)
        have P_iff: "?P h \<longleftrightarrow> c h \<ge> 0" if "r \<le> h" "h < u" for h
        proof -
          have hN: "h < N" using that uN by simp
          have m: "is_mvcc (key_suffix (keys ! h))" using kind[OF that ne] mv by simp
          have "walls ! h = suffix_wall (key_suffix (keys ! h))"
            using hN m by (simp add: walls_def N_def stored_wall_def)
          moreover have "(ucast (logs ! h) :: u32) = suffix_logical (key_suffix (keys ! h))"
            using hN m by (simp add: logs_def N_def stored_logical_def ucast_logical_roundtrip)
          ultimately show ?thesis
            unfolding cmprun[OF that] mvcc_pred[OF m mv] sel w_def lg_def by simp
        qed
        have P_stored: "?P h \<longleftrightarrow>
            (suffix_wall (key_suffix (keys ! h)) < w
             \<or> (suffix_wall (key_suffix (keys ! h)) = w \<and> suffix_logical (key_suffix (keys ! h)) \<le> lg))"
          if "r \<le> h" "h < u" for h
        proof -
          have hN: "h < N" using that uN by simp
          have m: "is_mvcc (key_suffix (keys ! h))" using kind[OF that ne] mv by simp
          have "walls ! h = suffix_wall (key_suffix (keys ! h))"
            using hN m by (simp add: walls_def N_def stored_wall_def)
          moreover have "(ucast (logs ! h) :: u32) = suffix_logical (key_suffix (keys ! h))"
            using hN m by (simp add: logs_def N_def stored_logical_def ucast_logical_roundtrip)
          ultimately show ?thesis unfolding sel by simp
        qed
        have mono: "?P j" if "r \<le> i" "i \<le> j" "j < u" "?P i" for i j
        proof (cases "i = j")
          case True
          then show ?thesis using that(4) by simp
        next
          case False
          then have ij: "i < j" using that(2) by simp
          have iu: "i < u" using ij that(3) by simp
          have rj: "r \<le> j" using that(1,2) by simp
          have mi: "is_mvcc (key_suffix (keys ! i))" using kind[OF that(1) iu ne] mv by simp
          have mj: "is_mvcc (key_suffix (keys ! j))" using kind[OF rj that(3) ne] mv by simp
          have pi: "suffix_wall (key_suffix (keys ! i)) < w
             \<or> (suffix_wall (key_suffix (keys ! i)) = w \<and> suffix_logical (key_suffix (keys ! i)) \<le> lg)"
            using that(4) unfolding P_stored[OF that(1) iu] .
          from mvcc_mono[OF mi mj sufsorted[OF that(1) ij that(3)] pi]
          show ?thesis unfolding P_stored[OF rj that(3)] .
        qed
        have bs: "r \<le> bsearch ?P r u \<and> bsearch ?P r u \<le> u
            \<and> (\<forall>i. r \<le> i \<and> i < bsearch ?P r u \<longrightarrow> \<not> ?P i)
            \<and> (\<forall>i. bsearch ?P r u \<le> i \<and> i < u \<longrightarrow> ?P i)"
        proof (rule bsearch_spec[where P = ?P and l = r and u = u])
          show "r \<le> u" using run(1) by simp
          fix i j assume "r \<le> i" "i \<le> j" "j < u" "?P i"
          then show "?P j" by (rule mono)
        qed
        define res where "res = bsearch ?P r u"
        have b1: "r \<le> res" "res \<le> u" using bs unfolding res_def by blast+
        have b2: "\<not> ?P i" if "r \<le> i" "i < res" for i using bs that unfolding res_def by blast
        have b3: "?P res" if "res < u" using bs that unfolding res_def by blast
        have "c i < 0" if "r \<le> i" "i < res" for i
        proof -
          have "i < u" using that b1 by simp
          from P_iff[OF that(1) this] b2[OF that] show ?thesis by simp
        qed
        moreover have "c res \<ge> 0" if "res < u"
          using P_iff[OF b1(1) that] b3[OF that] by simp
        moreover have "seekGEOnSuffix ks r sq = Inr res"
          unfolding code loop res_def ..
        ultimately show ?thesis using b1 by blast
      next
        case nmv: False
        let ?P = "\<lambda>h. bytes_Compare (ks_untypedVersions ks ! h) sq \<ge> 0"
        have code: "seekGEOnSuffix ks r sq = seekGEOnSuffix_untyped ks sq r u"
          using nmv q14 ne
          by (auto simp: seekGEOnSuffix_def sel u_def is_mvcc_def sq_def)
        have loop: "seekGEOnSuffix_untyped ks sq r u = Inr (bsearch ?P r u)"
          by (rule untyped_loop_bsearch) (simp add: sel lens uN)
        have P_stored: "?P h \<longleftrightarrow> bytes_Compare (key_suffix (keys ! h)) sq \<ge> 0"
          if "r \<le> h" "h < u" for h
        proof -
          have hN: "h < N" using that uN by simp
          have m: "\<not> is_mvcc (key_suffix (keys ! h))" using kind[OF that ne] nmv by simp
          have "utv ! h = key_suffix (keys ! h)"
            using hN m by (simp add: utv_def N_def stored_untyped_def)
          then show ?thesis unfolding sel by simp
        qed
        have P_iff: "?P h \<longleftrightarrow> c h \<ge> 0" if "r \<le> h" "h < u" for h
          unfolding P_stored[OF that] cmprun[OF that] untyped_pred[OF nmv ne] ..
        have mono: "?P j" if "r \<le> i" "i \<le> j" "j < u" "?P i" for i j
        proof (cases "i = j")
          case True
          then show ?thesis using that(4) by simp
        next
          case False
          then have ij: "i < j" using that(2) by simp
          have iu: "i < u" using ij that(3) by simp
          have rj: "r \<le> j" using that(1,2) by simp
          have mi: "\<not> is_mvcc (key_suffix (keys ! i))" using kind[OF that(1) iu ne] nmv by simp
          have pi: "bytes_Compare (key_suffix (keys ! i)) sq \<ge> 0"
            using that(4) unfolding P_stored[OF that(1) iu] .
          from untyped_mono[OF mi sufsorted[OF that(1) ij that(3)] pi ne]
          show ?thesis unfolding P_stored[OF rj that(3)] .
        qed
        have bs: "r \<le> bsearch ?P r u \<and> bsearch ?P r u \<le> u
            \<and> (\<forall>i. r \<le> i \<and> i < bsearch ?P r u \<longrightarrow> \<not> ?P i)
            \<and> (\<forall>i. bsearch ?P r u \<le> i \<and> i < u \<longrightarrow> ?P i)"
        proof (rule bsearch_spec[where P = ?P and l = r and u = u])
          show "r \<le> u" using run(1) by simp
          fix i j assume "r \<le> i" "i \<le> j" "j < u" "?P i"
          then show "?P j" by (rule mono)
        qed
        define res where "res = bsearch ?P r u"
        have b1: "r \<le> res" "res \<le> u" using bs unfolding res_def by blast+
        have b2: "\<not> ?P i" if "r \<le> i" "i < res" for i using bs that unfolding res_def by blast
        have b3: "?P res" if "res < u" using bs that unfolding res_def by blast
        have "c i < 0" if "r \<le> i" "i < res" for i
        proof -
          have "i < u" using that b1 by simp
          from P_iff[OF that(1) this] b2[OF that] show ?thesis by simp
        qed
        moreover have "c res \<ge> 0" if "res < u"
          using P_iff[OF b1(1) that] b3[OF that] by simp
        moreover have "seekGEOnSuffix ks r sq = Inr res"
          unfolding code loop res_def ..
        ultimately show ?thesis using b1 by blast
      qed
    qed
    then obtain res where res: "seekGEOnSuffix ks r sq = Inr res" "r \<le> res" "res \<le> u"
      "\<And>i. r \<le> i \<Longrightarrow> i < res \<Longrightarrow> c i < 0" "res < u \<Longrightarrow> c res \<ge> 0" by blast
    have out: "block_SeekGE keys q boundRow searchDir = Inr (res, True)"
      unfolding block_SeekGE_def seeker sum.case SeekGE_def si option.case kp sel sfx
      using True res(1) by (simp add: r_def)
    from least_ge_from_parts[of r res u N c, OF res(2,3) uN below res(4) res(5) above]
    have "res \<le> N \<and> (\<forall>i<res. c i < 0) \<and> (res < N \<longrightarrow> c res \<ge> 0)" by blast
    then show ?thesis unfolding out c_def N_def by blast
  qed
qed

theorem SeekGE_least_ge_witness:
  "list_all wf_key [[107, 0, 0, 0, 0, 0, 0, 0, 0, 200, 9], [107, 0, 0, 0, 0, 0, 0, 0, 0, 150, 9],
                    [107, 0, 0, 0, 0, 0, 0, 0, 0, 100, 9]]
   \<and> sorted_wrt (\<lambda>a b. Compare a b \<le> 0)
        [[107, 0, 0, 0, 0, 0, 0, 0, 0, 200, 9], [107, 0, 0, 0, 0, 0, 0, 0, 0, 150, 9],
         [107, 0, 0, 0, 0, 0, 0, 0, 0, 100, 9]]
   \<and> (\<exists>row eq.
         block_SeekGE [[107, 0, 0, 0, 0, 0, 0, 0, 0, 200, 9], [107, 0, 0, 0, 0, 0, 0, 0, 0, 150, 9],
                       [107, 0, 0, 0, 0, 0, 0, 0, 0, 100, 9]]
           [107, 0, 0, 0, 0, 0, 0, 0, 0, 175, 9] 0 0 = Inr (row, eq)
         \<and> row \<le> 3
         \<and> (\<forall>i<row. Compare ([[107, 0, 0, 0, 0, 0, 0, 0, 0, 200, 9],
                                [107, 0, 0, 0, 0, 0, 0, 0, 0, 150, 9],
                                [107, 0, 0, 0, 0, 0, 0, 0, 0, 100, 9]] ! i)
                        [107, 0, 0, 0, 0, 0, 0, 0, 0, 175, 9] < 0)
         \<and> (row < 3 \<longrightarrow>
              Compare ([[107, 0, 0, 0, 0, 0, 0, 0, 0, 200, 9],
                        [107, 0, 0, 0, 0, 0, 0, 0, 0, 150, 9],
                        [107, 0, 0, 0, 0, 0, 0, 0, 0, 100, 9]] ! row)
                [107, 0, 0, 0, 0, 0, 0, 0, 0, 175, 9] \<ge> 0))"
proof -
  let ?keys = "[[107, 0, 0, 0, 0, 0, 0, 0, 0, 200, 9], [107, 0, 0, 0, 0, 0, 0, 0, 0, 150, 9],
                [107, 0, 0, 0, 0, 0, 0, 0, 0, 100, 9 :: byte]]"
  let ?q = "[107, 0, 0, 0, 0, 0, 0, 0, 0, 175, 9 :: byte]"
  have wf: "list_all wf_key ?keys" by code_simp
  have wfq: "wf_key ?q" by code_simp
  have short: "list_all (\<lambda>k. int (length k) < 2 ^ 31) ?keys" by simp
  have sorted: "sorted_wrt (\<lambda>a b. Compare a b \<le> 0) ?keys" by code_simp
  have kinds: "list_all (same_kind ?q) ?keys" by code_simp
  have q14: "length (key_suffix ?q) \<noteq> 14" by code_simp
  have l3: "length ?keys = 3" by simp
  note least = SeekGE_least_ge[OF wf wfq short sorted kinds q14, of 0 0, unfolded l3]
  from wf sorted least show ?thesis by blast
qed

text \<open>
  Where claim C3 fails as stated. First, a query whose suffix is 14 bytes long: by the
  comparator it is untyped and lies between the block's two untyped keys, so the first
  key at or after it is row 1, but \<open>seekGEOnSuffix\<close> reads 14 bytes as an MVCC timestamp
  and returns row 0. Second, a block whose run holds a bare key before an MVCC key,
  sought with a newer timestamp: the bare key sorts before the query and the MVCC key
  after it, so the answer is row 1, but the bare key's zero timestamp passes the MVCC
  predicate and \<open>SeekGE\<close> returns row 0.
\<close>

theorem SeekGE_not_least_ge:
  "sorted_wrt (\<lambda>a b. Compare a b \<le> 0) [[117, 0, 97, 2], [117, 0, 99, 2]]
   \<and> block_SeekGE [[117, 0, 97, 2], [117, 0, 99, 2]]
        [117, 0, 98, 98, 98, 98, 98, 98, 98, 98, 98, 98, 98, 98, 98, 14] 0 0 = Inr (0, True)
   \<and> Compare [117, 0, 97, 2] [117, 0, 98, 98, 98, 98, 98, 98, 98, 98, 98, 98, 98, 98, 98, 14] = -1
   \<and> Compare [117, 0, 99, 2] [117, 0, 98, 98, 98, 98, 98, 98, 98, 98, 98, 98, 98, 98, 98, 14] = 1
   \<and> sorted_wrt (\<lambda>a b. Compare a b \<le> 0) [[107, 0], [107, 0, 0, 0, 0, 0, 0, 0, 0, 200, 9]]
   \<and> block_SeekGE [[107, 0], [107, 0, 0, 0, 0, 0, 0, 0, 0, 200, 9]]
        [107, 0, 0, 0, 0, 0, 0, 0, 0, 250, 9] 0 0 = Inr (0, True)
   \<and> Compare [107, 0] [107, 0, 0, 0, 0, 0, 0, 0, 0, 250, 9] = -1
   \<and> Compare [107, 0, 0, 0, 0, 0, 0, 0, 0, 200, 9] [107, 0, 0, 0, 0, 0, 0, 0, 0, 250, 9] = 1"
  by code_simp

lemma SeekSetBitGE_le: "SeekSetBitGE bm i \<le> length bm"
proof (cases "length bm \<le> i")
  case True
  then show ?thesis by (simp add: SeekSetBitGE_def)
next
  case False
  have "length (takeWhile Not (drop i bm)) \<le> length bm - i"
    using length_takeWhile_le[of Not "drop i bm"] by simp
  then show ?thesis using False by (simp add: SeekSetBitGE_def)
qed

text \<open>
  Claim C4, as amended. On a seeker bound to a block whose columns have a row for every
  bit of the prefix-changed bit set, \<open>seekGEOnSuffix\<close> classifies the seek suffix by its
  length alone. Length 0 returns the starting index. Lengths 9, 13 and 14 are parsed as
  MVCC, the wall time from the first eight bytes and, for lengths 13 and 14, the logical
  counter from the next four (zero for length 9), and the result is the binary search
  between the index and the end of the run with the MVCC-descending predicate: the row's
  wall time is below the seek wall time, or equal to it with the row's logical counter
  at most the seek logical counter. Every other length is untyped: the result is the
  binary search with the predicate that the row's untyped version is lexicographically
  at or after the seek suffix. For every length but 14 this is the spec's
  \<open>seekGEOnSuffix\<close>.
\<close>

theorem seekGEOnSuffix_classification:
  assumes rd: "reader ks = Some r"
    and lw: "length (prefixChanged r) \<le> length (mvccWallTimes ks)"
    and ll: "length (prefixChanged r) \<le> length (mvccLogical ks)"
    and lu: "length (prefixChanged r) \<le> length (ks_untypedVersions ks)"
  shows "seekGEOnSuffix ks index s =
           (if length s = 0 then Inr index
            else if length s = 9 \<or> length s = 13 \<or> length s = 14 then
              Inr (bsearch
                     (\<lambda>h. mvccWallTimes ks ! h < BigEndian_Uint64 s
                          \<or> (mvccWallTimes ks ! h = BigEndian_Uint64 s
                              \<and> (ucast (mvccLogical ks ! h) :: u32)
                                  \<le> (if length s = 9 then 0 else BigEndian_Uint32 (drop 8 s))))
                     index (SeekSetBitGE (prefixChanged r) (index + 1)))
            else
              Inr (bsearch (\<lambda>h. bytes_Compare (ks_untypedVersions ks ! h) s \<ge> 0)
                     index (SeekSetBitGE (prefixChanged r) (index + 1))))
         \<and> (length s \<noteq> 14 \<longrightarrow> seekGEOnSuffix ks index s = seekGEOnSuffix_spec ks index s)"
proof -
  define u where "u = SeekSetBitGE (prefixChanged r) (index + 1)"
  have ub: "u \<le> length (mvccWallTimes ks)" "u \<le> length (mvccLogical ks)"
    "u \<le> length (ks_untypedVersions ks)"
    using SeekSetBitGE_le[of "prefixChanged r" "index + 1"] lw ll lu by (simp_all add: u_def)
  note mv = mvcc_loop_bsearch[OF ub(1) ub(2)]
  note ut = untyped_loop_bsearch[OF ub(3)]
  consider (zero) "length s = 0" | (nine) "length s = 9" | (long) "length s = 13 \<or> length s = 14"
    | (other) "length s \<noteq> 0" "length s \<noteq> 9" "length s \<noteq> 13" "length s \<noteq> 14"
    by blast
  then show ?thesis
  proof cases
    case zero
    then show ?thesis by (simp add: seekGEOnSuffix_def seekGEOnSuffix_spec_def)
  next
    case nine
    have "seekGEOnSuffix ks index s = seekGEOnSuffix_mvcc ks (BigEndian_Uint64 s) 0 index u"
      using nine by (simp add: seekGEOnSuffix_def rd u_def)
    then show ?thesis
      unfolding mv using nine by (simp add: seekGEOnSuffix_spec_def rd u_def)
  next
    case long
    have "seekGEOnSuffix ks index s =
            seekGEOnSuffix_mvcc ks (BigEndian_Uint64 s) (BigEndian_Uint32 (drop 8 s)) index u"
      using long by (auto simp: seekGEOnSuffix_def rd u_def)
    then show ?thesis
      unfolding mv using long by (auto simp: seekGEOnSuffix_spec_def rd u_def)
  next
    case other
    have "seekGEOnSuffix ks index s = seekGEOnSuffix_untyped ks s index u"
      using other by (simp add: seekGEOnSuffix_def rd u_def)
    then show ?thesis
      unfolding ut using other by (simp add: seekGEOnSuffix_spec_def rd u_def)
  qed
qed

theorem seekGEOnSuffix_classification_witness:
  "seekGEOnSuffix
     \<lparr>reader = Some \<lparr>r_roachKeys = [[112], [112]], r_mvccWallTimes = [10, 10],
                     r_mvccLogical = [5, 2], r_untypedVersions = [[], []],
                     prefixChanged = [True, False]\<rparr>,
      ks_roachKeys = [[112], [112]], mvccWallTimes = [10, 10], mvccLogical = [5, 2],
      ks_untypedVersions = [[], []], sharedPrefix = [112]\<rparr>
     0 [0, 0, 0, 0, 0, 0, 0, 10, 0, 0, 0, 3, 13]
   = Inr (bsearch
            (\<lambda>h. [10, 10 :: u64] ! h < 10
                 \<or> ([10, 10 :: u64] ! h = 10 \<and> (ucast ([5, 2 :: u64] ! h) :: u32) \<le> 3))
            0 2)
   \<and> bsearch
        (\<lambda>h. [10, 10 :: u64] ! h < 10
             \<or> ([10, 10 :: u64] ! h = 10 \<and> (ucast ([5, 2 :: u64] ! h) :: u32) \<le> 3))
        0 2 = 1"
proof -
  let ?r = "\<lparr>r_roachKeys = [[112], [112]], r_mvccWallTimes = [10, 10],
             r_mvccLogical = [5, 2], r_untypedVersions = [[], []],
             prefixChanged = [True, False]\<rparr>"
  let ?ks = "\<lparr>reader = Some ?r, ks_roachKeys = [[112], [112]], mvccWallTimes = [10, 10],
              mvccLogical = [5, 2], ks_untypedVersions = [[], []], sharedPrefix = [112]\<rparr>"
  let ?s = "[0, 0, 0, 0, 0, 0, 0, 10, 0, 0, 0, 3, 13 :: byte]"
  have rd: "reader ?ks = Some ?r" by simp
  have lw: "length (prefixChanged ?r) \<le> length (mvccWallTimes ?ks)" by simp
  have ll: "length (prefixChanged ?r) \<le> length (mvccLogical ?ks)" by simp
  have lu: "length (prefixChanged ?r) \<le> length (ks_untypedVersions ?ks)" by simp
  have w: "BigEndian_Uint64 ?s = 10" by code_simp
  have l: "BigEndian_Uint32 (drop 8 ?s) = 3" by code_simp
  have u: "SeekSetBitGE (prefixChanged ?r) (0 + 1) = 2" by code_simp
  have b: "bsearch
        (\<lambda>h. [10, 10 :: u64] ! h < 10
             \<or> ([10, 10 :: u64] ! h = 10 \<and> (ucast ([5, 2 :: u64] ! h) :: u32) \<le> 3))
        0 2 = 1" by code_simp
  from seekGEOnSuffix_classification[OF rd lw ll lu, of 0 ?s]
  have "seekGEOnSuffix ?ks 0 ?s =
          Inr (bsearch
            (\<lambda>h. [10, 10 :: u64] ! h < 10
                 \<or> ([10, 10 :: u64] ! h = 10 \<and> (ucast ([5, 2 :: u64] ! h) :: u32) \<le> 3))
            0 2)"
    unfolding w l u by simp
  with b show ?thesis by blast
qed

text \<open>
  Where claim C4 fails as stated: two rows of one prefix with the untyped suffixes
  \<open>61 02\<close> and \<open>63 02\<close>, sought with thirteen bytes \<open>62\<close> and the length byte 14. Treated
  as untyped, as the claim has it for "every other length", the ascending lexicographic
  search over the untyped column ends at row 1; the code takes the MVCC path, where both
  rows have wall time 0 below the seek wall time, and ends at row 0.
\<close>

theorem seekGEOnSuffix_length_14:
  "seekGEOnSuffix
     \<lparr>reader = Some \<lparr>r_roachKeys = [[117], [117]], r_mvccWallTimes = [0, 0],
                     r_mvccLogical = [0, 0], r_untypedVersions = [[97, 2], [99, 2]],
                     prefixChanged = [True, False]\<rparr>,
      ks_roachKeys = [[117], [117]], mvccWallTimes = [0, 0], mvccLogical = [0, 0],
      ks_untypedVersions = [[97, 2], [99, 2]], sharedPrefix = [117]\<rparr>
     0 [98, 98, 98, 98, 98, 98, 98, 98, 98, 98, 98, 98, 98, 14] = Inr 0
   \<and> seekGEOnSuffix_spec
     \<lparr>reader = Some \<lparr>r_roachKeys = [[117], [117]], r_mvccWallTimes = [0, 0],
                     r_mvccLogical = [0, 0], r_untypedVersions = [[97, 2], [99, 2]],
                     prefixChanged = [True, False]\<rparr>,
      ks_roachKeys = [[117], [117]], mvccWallTimes = [0, 0], mvccLogical = [0, 0],
      ks_untypedVersions = [[97, 2], [99, 2]], sharedPrefix = [117]\<rparr>
     0 [98, 98, 98, 98, 98, 98, 98, 98, 98, 98, 98, 98, 98, 14] = Inr 1"
  by code_simp

section \<open>Capacity checks of the materialisation\<close>

lemma stores_within:
  "off + length vs \<le> length m \<Longrightarrow> \<exists>m'. stores m off vs = Inr m' \<and> length m' = length m"
proof (induction vs arbitrary: m off)
  case Nil
  then show ?case by simp
next
  case (Cons v vs)
  have "Suc off + length vs \<le> length (m[off := v])" using Cons.prems by simp
  from Cons.IH[OF this] show ?case using Cons.prems by simp
qed

lemma stores_not_Inl:
  "off + length vs \<le> length m \<Longrightarrow> stores m off vs \<noteq> Inl e"
  using stores_within[of off vs m] by auto

lemma SetAt_no_oob: "SetAt col k i \<noteq> Inl OutOfBoundsWrite"
  by (simp add: SetAt_def)

lemma position_no_oob:
  "(if c then SetNext col k else SetAt col k i) \<noteq> Inl OutOfBoundsWrite"
  by (simp add: SetNext_def SetAt_no_oob)

lemma checked_stores_no_oob:
  "(case reslice m (n + 1 + length vs) of
      Inl e \<Rightarrow> Inl e
    | Inr res \<Rightarrow> (case stores m n (0 # vs) of Inl e \<Rightarrow> Inl e | Inr m' \<Rightarrow> Inr (f m')))
   \<noteq> Inl OutOfBoundsWrite"
proof (cases "n + 1 + length vs \<le> length m")
  case True
  then obtain m' where "stores m n (0 # vs) = Inr m'"
    using stores_within[of n "0 # vs" m] by auto
  then show ?thesis using True by (simp add: reslice_def)
next
  case False
  then show ?thesis by (simp add: reslice_def)
qed

lemma synthetic_no_oob:
  "MaterializeUserKeyWithSyntheticSuffix ks ki sfx prevRow row \<noteq> Inl OutOfBoundsWrite"
proof (cases "if prevRow + 1 = int row \<and> prevRow \<ge> 0 then SetNext (ks_roachKeys ks) ki
              else SetAt (ks_roachKeys ks) ki row")
  case (Inl e)
  then have "e \<noteq> OutOfBoundsWrite" using position_no_oob by metis
  then show ?thesis unfolding MaterializeUserKeyWithSyntheticSuffix_def Inl by simp
next
  case (Inr k)
  show ?thesis
    unfolding MaterializeUserKeyWithSyntheticSuffix_def Inr
    using checked_stores_no_oob by simp
qed

lemma At_fault: "UnsafeUints_At col i = Inl e \<Longrightarrow> e = IndexOutOfRange"
  by (simp add: UnsafeUints_At_def split: if_splits)

lemma RawBytes_At_fault: "RawBytes_At col i = Inl e \<Longrightarrow> e = IndexOutOfRange"
  by (simp add: RawBytes_At_def split: if_splits)

lemma untyped_no_oob:
  assumes "\<not> mvcc_row ks row"
  shows "MaterializeUserKey ks ki prevRow row \<noteq> Inl OutOfBoundsWrite"
proof (cases "if prevRow + 1 = int row \<and> prevRow \<ge> 0 then SetNext (ks_roachKeys ks) ki
              else SetAt (ks_roachKeys ks) ki row")
  case (Inl e)
  then have "e \<noteq> OutOfBoundsWrite" using position_no_oob by metis
  then show ?thesis unfolding MaterializeUserKey_def Inl by simp
next
  case pos: (Inr k)
  show ?thesis
  proof (cases "UnsafeUints_At (mvccWallTimes ks) row")
    case (Inl e)
    then show ?thesis
      unfolding MaterializeUserKey_def pos using At_fault[OF Inl] by simp
  next
    case w: (Inr w)
    show ?thesis
    proof (cases "UnsafeUints_At (mvccLogical ks) row")
      case (Inl e)
      then show ?thesis
        unfolding MaterializeUserKey_def pos w using At_fault[OF Inl] by simp
    next
      case l: (Inr l)
      have z: "w = 0 \<and> (ucast l :: u32) = 0"
        using assms by (simp add: mvcc_row_def w l split: if_splits)
      show ?thesis
      proof (cases "RawBytes_At (ks_untypedVersions ks) row")
        case (Inl e)
        then show ?thesis
          unfolding MaterializeUserKey_def pos w l using z RawBytes_At_fault[OF Inl] by simp
      next
        case u: (Inr u)
        show ?thesis
        proof (cases "length u = 0")
          case True
          then show ?thesis
            unfolding MaterializeUserKey_def pos w l u using z
            by (simp add: reslice_def)
        next
          case False
          then show ?thesis
            unfolding MaterializeUserKey_def pos w l u
            using z checked_stores_no_oob[where m = "backing k" and n = "buf_len k" and vs = u]
            by simp
        qed
      qed
    qed
  qed
qed

lemma synthetic_too_small:
  assumes "position ks ki prevRow row = Inr ki'"
    and "length (backing ki') < buf_len ki' + 1 + length sfx"
  shows "MaterializeUserKeyWithSyntheticSuffix ks ki sfx prevRow row = Inl SliceBounds"
  unfolding MaterializeUserKeyWithSyntheticSuffix_def assms(1)[unfolded position_def]
  using assms(2) by (simp add: reslice_def)

lemma untyped_too_small:
  assumes "position ks ki prevRow row = Inr ki'"
    and "\<not> mvcc_row ks row"
    and "row < length (mvccWallTimes ks)" and "row < length (mvccLogical ks)"
    and "RawBytes_At (ks_untypedVersions ks) row = Inr v"
    and "length (backing ki') < buf_len ki' + 1 + length v"
  shows "MaterializeUserKey ks ki prevRow row = Inl SliceBounds"
proof -
  have w: "UnsafeUints_At (mvccWallTimes ks) row = Inr (mvccWallTimes ks ! row)"
    and l: "UnsafeUints_At (mvccLogical ks) row = Inr (mvccLogical ks ! row)"
    using assms(3,4) by (simp_all add: UnsafeUints_At_def)
  have z: "mvccWallTimes ks ! row = 0 \<and> (ucast (mvccLogical ks ! row) :: u32) = 0"
    using assms(2) by (simp add: mvcc_row_def w l split: if_splits)
  show ?thesis
    unfolding MaterializeUserKey_def assms(1)[unfolded position_def] w l assms(5)
    using z assms(6) by (auto simp: reslice_def)
qed

text \<open>
  Claim C7, as amended. \<open>MaterializeUserKeyWithSyntheticSuffix\<close>, on every row, and
  \<open>MaterializeUserKey\<close>, on every row that is not an MVCC row (the bare-prefix and the
  untyped path), extend the slice, and so check the capacity, before they write a byte
  past the prefix: whatever the buffer, they never store outside it, and when the buffer
  is too small for the prefix, the sentinel and the suffix they end in the slice-bounds
  panic.
\<close>

theorem Materialize_extends_before_writing:
  "MaterializeUserKeyWithSyntheticSuffix ks ki sfx prevRow row \<noteq> Inl OutOfBoundsWrite
   \<and> (\<not> mvcc_row ks row \<longrightarrow> MaterializeUserKey ks ki prevRow row \<noteq> Inl OutOfBoundsWrite)
   \<and> (position ks ki prevRow row = Inr ki'
        \<and> length (backing ki') < buf_len ki' + 1 + length sfx
      \<longrightarrow> MaterializeUserKeyWithSyntheticSuffix ks ki sfx prevRow row = Inl SliceBounds)
   \<and> (position ks ki prevRow row = Inr ki' \<and> \<not> mvcc_row ks row
        \<and> row < length (mvccWallTimes ks) \<and> row < length (mvccLogical ks)
        \<and> RawBytes_At (ks_untypedVersions ks) row = Inr v
        \<and> length (backing ki') < buf_len ki' + 1 + length v
      \<longrightarrow> MaterializeUserKey ks ki prevRow row = Inl SliceBounds)"
proof (intro conjI impI)
  show "MaterializeUserKeyWithSyntheticSuffix ks ki sfx prevRow row \<noteq> Inl OutOfBoundsWrite"
    by (rule synthetic_no_oob)
  show "MaterializeUserKey ks ki prevRow row \<noteq> Inl OutOfBoundsWrite" if "\<not> mvcc_row ks row"
    using that by (rule untyped_no_oob)
  show "MaterializeUserKeyWithSyntheticSuffix ks ki sfx prevRow row = Inl SliceBounds"
    if "position ks ki prevRow row = Inr ki'
        \<and> length (backing ki') < buf_len ki' + 1 + length sfx"
    using that synthetic_too_small by blast
  show "MaterializeUserKey ks ki prevRow row = Inl SliceBounds"
    if "position ks ki prevRow row = Inr ki' \<and> \<not> mvcc_row ks row
        \<and> row < length (mvccWallTimes ks) \<and> row < length (mvccLogical ks)
        \<and> RawBytes_At (ks_untypedVersions ks) row = Inr v
        \<and> length (backing ki') < buf_len ki' + 1 + length v"
    using that untyped_too_small by blast
qed

theorem Materialize_extends_before_writing_witness:
  "\<not> mvcc_row \<lparr>reader = None, ks_roachKeys = [[117]], mvccWallTimes = [0], mvccLogical = [0],
                ks_untypedVersions = [[118, 88, 3]], sharedPrefix = [117]\<rparr> 0
   \<and> position \<lparr>reader = None, ks_roachKeys = [[117]], mvccWallTimes = [0], mvccLogical = [0],
                ks_untypedVersions = [[118, 88, 3]], sharedPrefix = [117]\<rparr>
        \<lparr>backing = [0, 0, 0, 0], buf_len = 0, at_row = 0\<rparr> (-1) 0
      = Inr \<lparr>backing = [117, 0, 0, 0], buf_len = 1, at_row = 0\<rparr>
   \<and> MaterializeUserKey
        \<lparr>reader = None, ks_roachKeys = [[117]], mvccWallTimes = [0], mvccLogical = [0],
         ks_untypedVersions = [[118, 88, 3]], sharedPrefix = [117]\<rparr>
        \<lparr>backing = [0, 0, 0, 0], buf_len = 0, at_row = 0\<rparr> (-1) 0
      = Inl SliceBounds
   \<and> MaterializeUserKeyWithSyntheticSuffix
        \<lparr>reader = None, ks_roachKeys = [[117]], mvccWallTimes = [0], mvccLogical = [0],
         ks_untypedVersions = [[118, 88, 3]], sharedPrefix = [117]\<rparr>
        \<lparr>backing = [0, 0, 0, 0], buf_len = 0, at_row = 0\<rparr> [118, 88, 3] (-1) 0
      = Inl SliceBounds"
proof -
  let ?ks = "\<lparr>reader = None, ks_roachKeys = [[117]], mvccWallTimes = [0], mvccLogical = [0],
              ks_untypedVersions = [[118, 88, 3]], sharedPrefix = [117]\<rparr>"
  let ?ki = "\<lparr>backing = [0, 0, 0, 0], buf_len = 0, at_row = 0\<rparr>"
  let ?ki' = "\<lparr>backing = [117, 0, 0, 0 :: byte], buf_len = 1, at_row = 0\<rparr>"
  have h: "\<not> mvcc_row ?ks 0" by (simp add: mvcc_row_def UnsafeUints_At_def)
  have p: "position ?ks ?ki (-1) 0 = Inr ?ki'" by (simp add: position_def SetAt_def)
  have v: "RawBytes_At (ks_untypedVersions ?ks) 0 = Inr [118, 88, 3]"
    by (simp add: RawBytes_At_def)
  from Materialize_extends_before_writing
         [of ?ks ?ki "[118, 88, 3]" "-1" 0 ?ki' "[118, 88, 3]"] h p v
  show ?thesis by simp
qed

text \<open>
  Where claim C7 fails as stated: an MVCC row (prefix \<open>"k"\<close>, wall time 200) materialised
  into a buffer of capacity 5. The MVCC path writes the sentinel and the wall-time bytes
  through raw pointers first; the store at offset 5 is past the end of the buffer, and it
  happens before the slice is extended.
\<close>

theorem MaterializeUserKey_writes_before_extending:
  "block_MaterializeUserKey [[107, 0, 0, 0, 0, 0, 0, 0, 0, 200, 9]] 5 (-1) 0 = Inl OutOfBoundsWrite"
  by code_simp

end
